theory Spec2Isabelle
  imports Main
begin

section \<open>The preview-URL extractor of \<open>services/Project.ts\<close>\<close>

text \<open>
  \<open>extractPortNumber\<close> first removes ANSI colour sequences with
  \<^verbatim>\<open>inputString.replace(/\x1B\[[0-9;]*m/g, "")\<close> and then looks for the first match of
  \<^verbatim>\<open>/http:\/\/localhost:(\d+)/\<close>, returning \<^verbatim>\<open>parseInt(match[1])\<close> or \<^verbatim>\<open>null\<close>.
  Both regular expressions are written out as the scanners they denote.
\<close>

definition ESC :: char where
  "ESC = CHR 0x1B"

definition isDigit :: "char \<Rightarrow> bool" where
  "isDigit c = (c \<in> set ''0123456789'')"

text \<open>The character class \<^verbatim>\<open>[0-9;]\<close>.\<close>

definition isParam :: "char \<Rightarrow> bool" where
  "isParam c = (isDigit c \<or> c = CHR '';'')"

text \<open>
  The global replace scans from the left. At an escape character followed by \<^verbatim>\<open>[\<close> the
  greedy class \<^verbatim>\<open>[0-9;]*\<close> takes every parameter character; the match succeeds only when
  an \<^verbatim>\<open>m\<close> follows (giving parameter characters back cannot help, \<^verbatim>\<open>m\<close> is not one of
  them), and scanning resumes after the \<^verbatim>\<open>m\<close>. Anywhere else the character is kept and
  scanning resumes one character later.
\<close>

function stripAnsi :: "string \<Rightarrow> string" where
  "stripAnsi [] = []"
| "stripAnsi (c # cs) =
     (if c = ESC then
        (case cs of
           b # rest \<Rightarrow>
             (if b = CHR ''['' then
                (case dropWhile isParam rest of
                   m # rest' \<Rightarrow> (if m = CHR ''m'' then stripAnsi rest' else c # stripAnsi cs)
                 | [] \<Rightarrow> c # stripAnsi cs)
              else c # stripAnsi cs)
         | [] \<Rightarrow> c # stripAnsi cs)
      else c # stripAnsi cs)"
  by pat_completeness auto
termination
proof (relation "measure length")
  show "wf (measure length)" by simp
next
  fix c :: char and cs :: string and b rest m rest'
  assume "dropWhile isParam rest = m # rest'" and "cs = b # rest"
  then show "(rest', c # cs) \<in> measure length"
    using length_dropWhile_le [of isParam rest] by simp
qed simp_all

text \<open>
  What that removal is, said without the scanner. A colour sequence is the escape
  character, \<^verbatim>\<open>[\<close>, any number of digits and semicolons, and \<^verbatim>\<open>m\<close>: the strings
  the pattern matches. \<open>stripped s t\<close>: \<open>t\<close> is \<open>s\<close> with every colour sequence removed,
  reading from the left; where no colour sequence begins, the character is kept. No other
  escape sequence is removed.
\<close>

definition isSGR :: "string \<Rightarrow> bool" where
  "isSGR q = (\<exists>ps. q = ESC # CHR ''['' # ps @ ''m'' \<and> list_all isParam ps)"

inductive stripped :: "string \<Rightarrow> string \<Rightarrow> bool" where
  stripped_end: "stripped [] []"
| stripped_skip: "isSGR q \<Longrightarrow> stripped rest t \<Longrightarrow> stripped (q @ rest) t"
| stripped_keep: "\<not> (\<exists>q rest. isSGR q \<and> c # cs = q @ rest) \<Longrightarrow> stripped cs t
     \<Longrightarrow> stripped (c # cs) (c # t)"

definition urlPrefix :: string where
  "urlPrefix = ''http://localhost:''"

text \<open>
  \<^verbatim>\<open>cleanedString.match(regex)\<close> without the \<^verbatim>\<open>g\<close> flag: the leftmost position at which
  the literal prefix is followed by at least one digit; group 1 is the longest run of digits
  there. \<open>None\<close> is the \<^verbatim>\<open>null\<close> of a failed match.
\<close>

fun matchPort :: "string \<Rightarrow> string option" where
  "matchPort [] = None"
| "matchPort (c # cs) =
     (if take (length urlPrefix) (c # cs) = urlPrefix
         \<and> takeWhile isDigit (drop (length urlPrefix) (c # cs)) \<noteq> []
      then Some (takeWhile isDigit (drop (length urlPrefix) (c # cs)))
      else matchPort cs)"

text \<open>
  A JavaScript number. \<^verbatim>\<open>parseInt\<close> of a string of decimal digits is the exact integer as
  long as that integer is below \<open>2^53\<close>; from there on the result is the nearest double
  (or \<^verbatim>\<open>Infinity\<close>), whose value is not modelled: \<open>Imprecise\<close> only records that it is a
  nonzero number.
\<close>

datatype jsnumber = Exact nat | Imprecise

definition digitValue :: "char \<Rightarrow> nat" where
  "digitValue c = of_char c - 48"

definition decimal :: "string \<Rightarrow> nat" where
  "decimal ds = foldl (\<lambda>n c. 10 * n + digitValue c) 0 ds"

definition parseInt :: "string \<Rightarrow> jsnumber" where
  "parseInt ds = (if decimal ds < 2 ^ 53 then Exact (decimal ds) else Imprecise)"

definition extractPortNumber :: "string \<Rightarrow> jsnumber option" where
  "extractPortNumber inputString =
     (let cleanedString = stripAnsi inputString
      in case matchPort cleanedString of
           Some digits \<Rightarrow> Some (parseInt digits)
         | None \<Rightarrow> None)"

text \<open>The truthiness test \<^verbatim>\<open>if (port)\<close> on a number: only zero is falsy.\<close>

definition truthyNumber :: "jsnumber \<Rightarrow> bool" where
  "truthyNumber n = (n \<noteq> Exact 0)"

text \<open>
  The property the extractor is specified by: the text contains the literal
  \<^verbatim>\<open>http://localhost:\<close> directly followed by a digit.
\<close>

definition containsLocalUrl :: "string \<Rightarrow> bool" where
  "containsLocalUrl s = (\<exists>pre d post. s = pre @ urlPrefix @ d # post \<and> isDigit d)"

section \<open>External collaborators\<close>

text \<open>
  A thrown JavaScript exception is a value: \<open>Error\<close> with its message for the errors the
  collaborators and \<^verbatim>\<open>throw new Error(...)\<close> raise, \<open>TypeError\<close> for the one the
  runtime raises when something that is not a function is called.
\<close>

datatype error = Error string | TypeError string

text \<open>
  The sandbox handle (\<^verbatim>\<open>Sandbox\<close> of the \<^verbatim>\<open>e2b\<close> package, imported as
  \<^verbatim>\<open>Container\<close>). The code reads one property of it, \<^verbatim>\<open>sandboxId\<close>, and otherwise only
  passes it back to the service.
\<close>

datatype container = Container (sandboxId: string)

type_synonym socket = nat

record connection =
  userId :: string
  isOwner :: bool
  socket :: socket

record dimensions =
  cols :: nat
  rows :: nat

text \<open>
  What \<^verbatim>\<open>socket.emit\<close> sends. \<^verbatim>\<open>terminalResponse\<close> carries \<^verbatim>\<open>{ id, data }\<close> when emitted
  by \<open>services/Project.ts\<close> and \<^verbatim>\<open>{ data }\<close> alone when emitted by \<^verbatim>\<open>Pty.send\<close>, so
  the tag is optional.
\<close>

datatype socket_event =
    TerminalResponse "string option" string
  | PreviewURL string

text \<open>
  Every call that leaves the process is recorded, in order, in a trace: the calls to the
  sandbox service, the write to the database, what is emitted on a socket, and what is done
  to a shell process (named by the logical id it is registered under).
\<close>

datatype call =
    Connect string nat
  | IsRunning container
  | Create string nat
  | DbUpdate string "string option"
  | SetTimeout container nat
  | Emit socket socket_event
  | PtySpawn string
  | PtyWrite string string
  | PtyResize string dimensions
  | PtyClose string
  | CloseAllTerminals
  | StopWatching

text \<open>
  The environment is a parameter. Each awaited call may throw (\<open>Inl\<close>) or return
  (\<open>Inr\<close>), and its answer may depend on everything that has been called before (the
  trace so far), so that the same sandbox can be running at one moment and gone at the
  next. \<open>CONTAINER_TIMEOUT\<close> is the constant of \<^verbatim>\<open>utils/constants\<close>, which is not among
  the sources. \<open>getHost\<close> is the handle's port-to-host mapping. \<open>bulkClose\<close> and
  \<open>watchStop\<close> are the outcomes of the two calls \<open>disconnect\<close> awaits,
  \<^verbatim>\<open>closeAllTerminals()\<close> and \<^verbatim>\<open>stopWatching()\<close>: like every awaited call they may
  reject.
\<close>

record env =
  CONTAINER_TIMEOUT :: nat
  connect :: "call list \<Rightarrow> string \<Rightarrow> nat \<Rightarrow> error + container"
  isRunning :: "call list \<Rightarrow> container \<Rightarrow> error + bool"
  create :: "call list \<Rightarrow> string \<Rightarrow> nat \<Rightarrow> error + container"
  dbUpdate :: "call list \<Rightarrow> string \<Rightarrow> string option \<Rightarrow> error + unit"
  setTimeout :: "call list \<Rightarrow> container \<Rightarrow> nat \<Rightarrow> error + unit"
  getHost :: "container \<Rightarrow> jsnumber \<Rightarrow> string"
  bulkClose :: "call list \<Rightarrow> error + unit"
  watchStop :: "call list \<Rightarrow> error + unit"

section \<open>The terminal multiplexer and the file adapter\<close>

text \<open>
  A terminal session: the output callback bound at creation. The callback is given the
  output chunk and the session's current sandbox handle (the closure built in
  \<^verbatim>\<open>handleCreateTerminal\<close> reads \<^verbatim>\<open>this.container\<close> when it runs), and yields what it
  emits.
\<close>

record terminal =
  onData :: "string \<Rightarrow> container option \<Rightarrow> call list"

record terminalManager =
  sandbox :: container
  terminals :: "(string \<times> terminal) list"

record fileManager =
  fileSandbox :: container

text \<open>
  Modelled from the spec: \<^verbatim>\<open>services/TerminalManager.ts\<close> is not among the sources. The
  spec (4.3) gives the contract followed here: \<^verbatim>\<open>new TerminalManager(container)\<close> starts
  with an empty registry.
\<close>

definition newTerminalManager :: "container \<Rightarrow> terminalManager" where
  "newTerminalManager c = \<lparr>sandbox = c, terminals = []\<rparr>"

text \<open>
  Modelled from the spec: \<^verbatim>\<open>createTerminal(logicalId, onOutput)\<close> "spawns a new shell
  process inside the bound sandbox and registers it under \<^verbatim>\<open>logicalId\<close>"; on an id that
  exists it "must not leak the previous process handle (close-before-replace)".
\<close>

definition createTerminal ::
  "terminalManager \<Rightarrow> string \<Rightarrow> (string \<Rightarrow> container option \<Rightarrow> call list) \<Rightarrow> call list
     \<Rightarrow> terminalManager \<times> call list" where
  "createTerminal tm ident cb tr =
     (tm\<lparr>terminals := (ident, \<lparr>onData = cb\<rparr>) # filter (\<lambda>e. fst e \<noteq> ident) (terminals tm)\<rparr>,
      tr @ (if ident \<in> fst ` set (terminals tm) then [PtyClose ident] else []) @ [PtySpawn ident])"

text \<open>
  Modelled from the spec: \<^verbatim>\<open>sendTerminalData(logicalId, bytes)\<close> "forwards bytes to the
  matching process's input stream; unknown id: no-op".
\<close>

definition sendTerminalData ::
  "terminalManager \<Rightarrow> string \<Rightarrow> string \<Rightarrow> call list \<Rightarrow> terminalManager \<times> call list" where
  "sendTerminalData tm ident data tr =
     (if ident \<in> fst ` set (terminals tm) then (tm, tr @ [PtyWrite ident data]) else (tm, tr))"

text \<open>
  Modelled from the spec: the handler passes the dimensions only, and the spec's event
  table has \<^verbatim>\<open>resizeTerminal\<close> "resize active terminal(s)": every registered session is
  sent the resize signal, which is nothing when none is registered.
\<close>

definition resizeTerminal ::
  "terminalManager \<Rightarrow> dimensions \<Rightarrow> call list \<Rightarrow> terminalManager \<times> call list" where
  "resizeTerminal tm dims tr = (tm, tr @ map (\<lambda>e. PtyResize (fst e) dims) (terminals tm))"

text \<open>
  Modelled from the spec: \<^verbatim>\<open>closeTerminal(logicalId)\<close> "terminates the process and removes
  the registry entry; unknown id: no-op".
\<close>

definition closeTerminal ::
  "terminalManager \<Rightarrow> string \<Rightarrow> call list \<Rightarrow> terminalManager \<times> call list" where
  "closeTerminal tm ident tr =
     (if ident \<in> fst ` set (terminals tm)
      then (tm\<lparr>terminals := filter (\<lambda>e. fst e \<noteq> ident) (terminals tm)\<rparr>, tr @ [PtyClose ident])
      else (tm, tr))"

text \<open>
  Modelled from the spec: \<^verbatim>\<open>closeAllTerminals()\<close> "closes every registered session and
  clears the registry". That is what a bulk close that returns has done. The call is
  awaited and may reject; of a bulk close that rejects nothing more is assumed than that
  it was called, and the registry is left as it was.
\<close>

definition closeAllTerminals ::
  "env \<Rightarrow> terminalManager \<Rightarrow> call list \<Rightarrow> (error + unit) \<times> terminalManager \<times> call list" where
  "closeAllTerminals E tm tr =
     (case bulkClose E tr of
        Inl e \<Rightarrow> (Inl e, tm, tr @ [CloseAllTerminals])
      | Inr u \<Rightarrow>
          (Inr (), tm\<lparr>terminals := []\<rparr>,
           tr @ CloseAllTerminals # map (\<lambda>e. PtyClose (fst e)) (terminals tm)))"

text \<open>
  Modelled from the spec: \<^verbatim>\<open>services/FileManager.ts\<close> is not among the sources. Of the
  file adapter the session only constructs it on the handle and, on disconnect, "stops any
  file-change watching".
\<close>

definition newFileManager :: "container \<Rightarrow> fileManager" where
  "newFileManager c = \<lparr>fileSandbox = c\<rparr>"

text \<open>
  Modelled from the spec: \<^verbatim>\<open>stopWatching()\<close> of the absent file adapter "stops any
  file-change watching"; it is recorded as one call, which is awaited and may reject.
\<close>

definition stopWatching :: "env \<Rightarrow> fileManager \<Rightarrow> call list \<Rightarrow> (error + unit) \<times> call list" where
  "stopWatching E fm tr = (watchStop E tr, tr @ [StopWatching])"

section \<open>The project session of \<open>services/Project.ts\<close>\<close>

record project =
  projectId :: string
  type :: string
  fileManager :: "fileManager option"
  terminalManager :: "terminalManager option"
  container :: "container option"
  containerId :: "string option"

text \<open>The constructor: both managers and the handle start as \<^verbatim>\<open>null\<close>.\<close>

definition newProject :: "string \<Rightarrow> string \<Rightarrow> string \<Rightarrow> project" where
  "newProject pid ty cid =
     \<lparr>projectId = pid, type = ty, fileManager = None, terminalManager = None,
      container = None, containerId = Some cid\<rparr>"

text \<open>
  \<^verbatim>\<open>if (this.containerId)\<close> on a \<^verbatim>\<open>string | null\<close>: \<^verbatim>\<open>null\<close> and the empty string are
  falsy.
\<close>

definition truthyString :: "string option \<Rightarrow> bool" where
  "truthyString v = (case v of None \<Rightarrow> False | Some s \<Rightarrow> s \<noteq> [])"

type_synonym session = "project \<times> call list"

text \<open>
  Modelled from the spec: \<^verbatim>\<open>utils/lock.ts\<close> is not among the sources. The spec (4.1) has
  \<^verbatim>\<open>acquire(key, criticalSection)\<close> run the critical section, release the lock on every
  exit path, and hand the section's failure to the caller. For one logical task the lock
  is free when asked for, so the section runs at once.
\<close>

definition acquireLock ::
  "string \<Rightarrow> (session \<Rightarrow> (error + 'a) \<times> session) \<Rightarrow> session \<Rightarrow> (error + 'a) \<times> session" where
  "acquireLock key task s = task s"

definition templateTypes :: "string list" where
  "templateTypes = [''vanillajs'', ''reactjs'', ''nextjs'', ''streamlit'', ''php'']"

text \<open>
  \<^verbatim>\<open>templateTypes.includes(this.type) ? `gitwit-${this.type}` : `base`\<close>
\<close>

definition template :: "string \<Rightarrow> string" where
  "template ty = (if ty \<in> set templateTypes then ''gitwit-'' @ ty else ''base'')"

text \<open>
  The first statement of the critical section: with a truthy last-known id,
  \<^verbatim>\<open>this.container = await Container.connect(this.containerId, ...)\<close>. There is no
  \<^verbatim>\<open>try\<close> around it: a throw leaves the section.
\<close>

definition connectStep :: "env \<Rightarrow> session \<Rightarrow> (error + unit) \<times> session" where
  "connectStep E s =
     (case s of (p, tr) \<Rightarrow>
        (case containerId p of
           Some cid \<Rightarrow>
             (if cid \<noteq> [] then
                (case connect E tr cid (CONTAINER_TIMEOUT E) of
                   Inl e \<Rightarrow> (Inl e, p, tr @ [Connect cid (CONTAINER_TIMEOUT E)])
                 | Inr h \<Rightarrow>
                     (Inr (), p\<lparr>container := Some h\<rparr>, tr @ [Connect cid (CONTAINER_TIMEOUT E)]))
              else (Inr (), p, tr))
         | None \<Rightarrow> (Inr (), p, tr)))"

text \<open>
  The condition \<^verbatim>\<open>!this.container || !(await this.container.isRunning())\<close>: without a
  handle it is true and nothing is called.
\<close>

definition needsCreate :: "env \<Rightarrow> session \<Rightarrow> (error + bool) \<times> session" where
  "needsCreate E s =
     (case s of (p, tr) \<Rightarrow>
        (case container p of
           None \<Rightarrow> (Inr True, p, tr)
         | Some h \<Rightarrow>
             (case isRunning E tr h of
                Inl e \<Rightarrow> (Inl e, p, tr @ [IsRunning h])
              | Inr b \<Rightarrow> (Inr (\<not> b), p, tr @ [IsRunning h]))))"

text \<open>
  The body of that \<^verbatim>\<open>if\<close>, up to its second \<^verbatim>\<open>await\<close>:
  \<^verbatim>\<open>this.container = await Container.create(template, ...)\<close> and
  \<^verbatim>\<open>this.containerId = this.container.sandboxId\<close>.
\<close>

definition createCall :: "env \<Rightarrow> session \<Rightarrow> (error + unit) \<times> session" where
  "createCall E s =
     (case s of (p, tr) \<Rightarrow>
        (case create E tr (template (type p)) (CONTAINER_TIMEOUT E) of
           Inl e \<Rightarrow> (Inl e, p, tr @ [Create (template (type p)) (CONTAINER_TIMEOUT E)])
         | Inr h \<Rightarrow>
             (Inr (), p\<lparr>container := Some h, containerId := Some (sandboxId h)\<rparr>,
              tr @ [Create (template (type p)) (CONTAINER_TIMEOUT E)])))"

text \<open>
  The rest of the body: \<^verbatim>\<open>await db.update(schema.sandbox).set({ containerId:
  this.containerId }).where(eq(schema.sandbox.id, this.projectId))\<close>.
\<close>

definition persistId :: "env \<Rightarrow> session \<Rightarrow> (error + unit) \<times> session" where
  "persistId E s =
     (case s of (p, tr) \<Rightarrow>
        (dbUpdate E tr (projectId p) (containerId p),
         p, tr @ [DbUpdate (projectId p) (containerId p)]))"

definition createStep :: "env \<Rightarrow> session \<Rightarrow> (error + unit) \<times> session" where
  "createStep E s =
     (case createCall E s of
        (Inl e, s1) \<Rightarrow> (Inl e, s1)
      | (Inr _, s1) \<Rightarrow> persistId E s1)"

definition criticalSection :: "env \<Rightarrow> session \<Rightarrow> (error + unit) \<times> session" where
  "criticalSection E s =
     (case connectStep E s of
        (Inl e, s1) \<Rightarrow> (Inl e, s1)
      | (Inr _, s1) \<Rightarrow>
          (case needsCreate E s1 of
             (Inl e, s2) \<Rightarrow> (Inl e, s2)
           | (Inr True, s2) \<Rightarrow> createStep E s2
           | (Inr False, s2) \<Rightarrow> (Inr (), s2)))"

text \<open>
  After the lock: \<^verbatim>\<open>if (!this.container) throw new Error("Failed to create container")\<close>,
  then each manager is constructed on the handle if it is absent.
\<close>

definition afterLock :: "session \<Rightarrow> (error + unit) \<times> session" where
  "afterLock s =
     (case s of (p, tr) \<Rightarrow>
        (case container p of
           None \<Rightarrow> (Inl (Error ''Failed to create container''), p, tr)
         | Some h \<Rightarrow>
             (let p1 = (if terminalManager p = None
                        then p\<lparr>terminalManager := Some (newTerminalManager h)\<rparr> else p);
                  p2 = (if fileManager p1 = None
                        then p1\<lparr>fileManager := Some (newFileManager h)\<rparr> else p1)
              in (Inr (), p2, tr))))"

definition initialize :: "env \<Rightarrow> session \<Rightarrow> (error + unit) \<times> session" where
  "initialize E s =
     (case acquireLock (projectId (fst s)) (criticalSection E) s of
        (Inl e, s1) \<Rightarrow> (Inl e, s1)
      | (Inr _, s1) \<Rightarrow> afterLock s1)"

text \<open>
  \<^verbatim>\<open>disconnect()\<close>: \<^verbatim>\<open>await this.terminalManager?.closeAllTerminals()\<close>, null the
  multiplexer, \<^verbatim>\<open>await this.fileManager?.stopWatching()\<close>, null the file adapter. There
  is no \<^verbatim>\<open>try\<close>: a rejection of either awaited call leaves \<open>disconnect\<close> at once, with
  the statements after it not run.
\<close>

definition disconnect :: "env \<Rightarrow> session \<Rightarrow> (error + unit) \<times> session" where
  "disconnect E s =
     (case s of (p, tr) \<Rightarrow>
        (case (case terminalManager p of
                 None \<Rightarrow> (Inr (), tr)
               | Some tm \<Rightarrow>
                   (case closeAllTerminals E tm tr of (r, tm', tr') \<Rightarrow> (r, tr'))) of
           (Inl e, tr1) \<Rightarrow> (Inl e, p, tr1)
         | (Inr u, tr1) \<Rightarrow>
             (let p1 = p\<lparr>terminalManager := None\<rparr>
              in case (case fileManager p1 of
                         None \<Rightarrow> (Inr (), tr1)
                       | Some fm \<Rightarrow> stopWatching E fm tr1) of
                   (Inl e, tr2) \<Rightarrow> (Inl e, p1, tr2)
                 | (Inr u, tr2) \<Rightarrow> (Inr (), p1\<lparr>fileManager := None\<rparr>, tr2))))"

subsection \<open>The handlers bound to one connection\<close>

text \<open>
  \<^verbatim>\<open>handleHeartbeat\<close>: for the owner, \<^verbatim>\<open>await this.container?.setTimeout(CONTAINER_TIMEOUT)\<close>
  inside \<^verbatim>\<open>try\<close>; the \<^verbatim>\<open>catch\<close> logs and returns \<^verbatim>\<open>false\<close>. Otherwise \<^verbatim>\<open>true\<close>.
  With a \<^verbatim>\<open>null\<close> handle the optional call is skipped.
\<close>

definition handleHeartbeat :: "env \<Rightarrow> connection \<Rightarrow> session \<Rightarrow> (error + bool) \<times> session" where
  "handleHeartbeat E conn s =
     (case s of (p, tr) \<Rightarrow>
        (if isOwner conn then
           (case container p of
              None \<Rightarrow> (Inr True, p, tr)
            | Some h \<Rightarrow>
                (case setTimeout E tr h (CONTAINER_TIMEOUT E) of
                   Inl e \<Rightarrow> (Inr False, p, tr @ [SetTimeout h (CONTAINER_TIMEOUT E)])
                 | Inr _ \<Rightarrow> (Inr True, p, tr @ [SetTimeout h (CONTAINER_TIMEOUT E)])))
         else (Inr True, p, tr)))"

text \<open>
  The callback \<^verbatim>\<open>handleCreateTerminal\<close> hands to the multiplexer: emit
  \<^verbatim>\<open>terminalResponse\<close> with \<^verbatim>\<open>{ id, data: responseString }\<close>, then, when a port is found
  and truthy, emit \<^verbatim>\<open>previewURL\<close> with \<^verbatim>\<open>"https://" + this.container?.getHost(port)\<close>
  (the string \<^verbatim>\<open>"https://undefined"\<close> without a handle).
\<close>

definition onTerminalResponse ::
  "env \<Rightarrow> connection \<Rightarrow> string \<Rightarrow> string \<Rightarrow> container option \<Rightarrow> call list" where
  "onTerminalResponse E conn ident responseString cont =
     Emit (socket conn) (TerminalResponse (Some ident) responseString) #
     (case extractPortNumber responseString of
        None \<Rightarrow> []
      | Some port \<Rightarrow>
          (if truthyNumber port
           then [Emit (socket conn)
                   (PreviewURL (''https://'' @
                      (case cont of None \<Rightarrow> ''undefined'' | Some h \<Rightarrow> getHost E h port)))]
           else []))"

definition handleCreateTerminal ::
  "env \<Rightarrow> connection \<Rightarrow> string \<Rightarrow> session \<Rightarrow> (error + unit) \<times> session" where
  "handleCreateTerminal E conn ident s =
     acquireLock (projectId (fst s))
       (\<lambda>s'. case s' of (p, tr) \<Rightarrow>
          (case terminalManager p of
             None \<Rightarrow> (Inr (), p, tr)
           | Some tm \<Rightarrow>
               (case createTerminal tm ident (onTerminalResponse E conn ident) tr of
                  (tm', tr') \<Rightarrow> (Inr (), p\<lparr>terminalManager := Some tm'\<rparr>, tr')))) s"

definition handleResizeTerminal :: "dimensions \<Rightarrow> session \<Rightarrow> (error + unit) \<times> session" where
  "handleResizeTerminal dims s =
     (case s of (p, tr) \<Rightarrow>
        (case terminalManager p of
           None \<Rightarrow> (Inr (), p, tr)
         | Some tm \<Rightarrow>
             (case resizeTerminal tm dims tr of
                (tm', tr') \<Rightarrow> (Inr (), p\<lparr>terminalManager := Some tm'\<rparr>, tr'))))"

definition handleTerminalData :: "string \<Rightarrow> string \<Rightarrow> session \<Rightarrow> (error + unit) \<times> session" where
  "handleTerminalData ident data s =
     (case s of (p, tr) \<Rightarrow>
        (case terminalManager p of
           None \<Rightarrow> (Inr (), p, tr)
         | Some tm \<Rightarrow>
             (case sendTerminalData tm ident data tr of
                (tm', tr') \<Rightarrow> (Inr (), p\<lparr>terminalManager := Some tm'\<rparr>, tr'))))"

definition handleCloseTerminal :: "string \<Rightarrow> session \<Rightarrow> (error + unit) \<times> session" where
  "handleCloseTerminal ident s =
     (case s of (p, tr) \<Rightarrow>
        (case terminalManager p of
           None \<Rightarrow> (Inr (), p, tr)
         | Some tm \<Rightarrow>
             (case closeTerminal tm ident tr of
                (tm', tr') \<Rightarrow> (Inr (), p\<lparr>terminalManager := Some tm'\<rparr>, tr'))))"

section \<open>The earlier server: \<open>index.ts\<close> and its \<open>Pty\<close>\<close>

text \<open>
  \<^verbatim>\<open>Pty\<close> (the compiled class among the sources) keeps the socket; its constructor takes
  the id and does not store it. \<^verbatim>\<open>send(data)\<close> emits \<^verbatim>\<open>terminalResponse\<close> with
  \<^verbatim>\<open>{ data: Buffer.from(data, "utf-8") }\<close>, and the process's \<^verbatim>\<open>onData\<close> calls \<^verbatim>\<open>send\<close>.
\<close>

record pty =
  ptySocket :: socket

definition newPty :: "socket \<Rightarrow> string \<Rightarrow> pty" where
  "newPty sock ident = \<lparr>ptySocket = sock\<rparr>"

definition send :: "pty \<Rightarrow> string \<Rightarrow> call list" where
  "send t data = [Emit (ptySocket t) (TerminalResponse None data)]"

definition ptyOnData :: "pty \<Rightarrow> string \<Rightarrow> call list" where
  "ptyOnData t data = send t data"

text \<open>
  \<^verbatim>\<open>const terminals: { [id: string]: Pty } = {}\<close> is a plain object, and the listener
  uses it through \<^verbatim>\<open>terminals[id]\<close> alone. Such a read yields the own property when
  there is one and otherwise follows the prototype chain. The registry is therefore kept as
  what a read of each key yields: nothing, a \<^verbatim>\<open>Pty\<close> stored under the key, or the member
  of that name inherited from \<^verbatim>\<open>Object.prototype\<close>. Those members are all functions or
  objects: truthy, and without a \<^verbatim>\<open>write\<close> method.
\<close>

datatype 'a property = Undefined | Own 'a | Inherited string

definition objectPrototypeKeys :: "string list" where
  "objectPrototypeKeys =
     [''constructor'', ''__proto__'', ''hasOwnProperty'', ''isPrototypeOf'',
      ''propertyIsEnumerable'', ''toLocaleString'', ''toString'', ''valueOf'',
      ''__defineGetter__'', ''__defineSetter__'', ''__lookupGetter__'', ''__lookupSetter__'']"

text \<open>The object literal \<^verbatim>\<open>{}\<close>, the registry before any terminal is created: no own
  property, and the members of \<^verbatim>\<open>Object.prototype\<close> by inheritance.\<close>

definition emptyObject :: "string \<Rightarrow> 'a property" where
  "emptyObject key = (if key \<in> set objectPrototypeKeys then Inherited key else Undefined)"

text \<open>
  The \<^verbatim>\<open>terminalData\<close> listener of \<open>index.ts\<close>: return when \<^verbatim>\<open>!terminals[id]\<close>, else
  \<^verbatim>\<open>terminals[id].write(data)\<close>. Calling the missing \<^verbatim>\<open>write\<close> of an inherited member
  throws a \<^verbatim>\<open>TypeError\<close>.
\<close>

definition terminalDataListener ::
  "(string \<Rightarrow> pty property) \<Rightarrow> string \<Rightarrow> string \<Rightarrow> call list \<Rightarrow> (error + unit) \<times> call list" where
  "terminalDataListener terms ident data tr =
     (case terms ident of
        Undefined \<Rightarrow> (Inr (), tr)
      | Own t \<Rightarrow> (Inr (), tr @ [PtyWrite ident data])
      | Inherited k \<Rightarrow> (Inl (TypeError ''terminals[id].write is not a function''), tr))"

section \<open>Observations on a trace and sample data\<close>


fun creations :: "call list \<Rightarrow> string list" where
  "creations [] = []"
| "creations (Create t ms # cs) = t # creations cs"
| "creations (c # cs) = creations cs"

fun terminalResponses :: "call list \<Rightarrow> (socket \<times> string option \<times> string) list" where
  "terminalResponses [] = []"
| "terminalResponses (Emit sock (TerminalResponse tag d) # cs) =
     (sock, tag, d) # terminalResponses cs"
| "terminalResponses (c # cs) = terminalResponses cs"

text \<open>What a bulk close that returns adds to the trace, for a session \<open>p\<close>: nothing
  without a multiplexer, else the call and one close per registered terminal.\<close>

definition closing :: "project \<Rightarrow> call list" where
  "closing p =
     (case terminalManager p of
        None \<Rightarrow> []
      | Some tm \<Rightarrow> CloseAllTerminals # map (\<lambda>e. PtyClose (fst e)) (terminals tm))"

text \<open>The output of the specification's example, a line as a dev server prints it with
  the port in bold, a line with one colour sequence and no URL, and a line that sets the
  window title (an OSC sequence, closed by BEL) to a local URL.\<close>

definition sampleOutput :: string where
  "sampleOutput = ESC # ''[32mServer running at http://localhost:3001/'' @ ESC # ''[0m''"

definition boldPortOutput :: string where
  "boldPortOutput = ''Local: http://localhost:'' @ ESC # ''[1m5173'' @ ESC # ''[22m/''"

definition boldReady :: string where
  "boldReady = ESC # ''[1;32mready''"

definition oscOutput :: string where
  "oscOutput = ESC # '']0;http://localhost:3000'' @ CHR 0x07 # ''ready''"

text \<open>
  A sandbox service in which every call returns: the sandbox \<^verbatim>\<open>sbx-old\<close> has stopped,
  any other is running, and a creation yields \<^verbatim>\<open>sbx-new\<close>. Each variant below has one
  call throw.
\<close>

definition reliableEnv :: env where
  "reliableEnv =
     \<lparr>CONTAINER_TIMEOUT = 60000,
      connect = (\<lambda>tr cid ms. Inr (Container cid)),
      isRunning = (\<lambda>tr h. Inr (sandboxId h \<noteq> ''sbx-old'')),
      create = (\<lambda>tr t ms. Inr (Container ''sbx-new'')),
      dbUpdate = (\<lambda>tr pid cid. Inr ()),
      setTimeout = (\<lambda>tr h ms. Inr ()),
      getHost = (\<lambda>h port. sandboxId h @ ''.sandbox.test''),
      bulkClose = (\<lambda>tr. Inr ()),
      watchStop = (\<lambda>tr. Inr ())\<rparr>"

definition connectFails :: env where
  "connectFails = reliableEnv\<lparr>connect := (\<lambda>tr cid ms. Inl (Error ''sandbox not found''))\<rparr>"

definition createFails :: env where
  "createFails = reliableEnv\<lparr>create := (\<lambda>tr t ms. Inl (Error ''quota exceeded''))\<rparr>"

definition timeoutFails :: env where
  "timeoutFails = reliableEnv\<lparr>setTimeout := (\<lambda>tr h ms. Inl (Error ''sandbox paused''))\<rparr>"

definition writeFails :: env where
  "writeFails = reliableEnv\<lparr>dbUpdate := (\<lambda>tr pid cid. Inl (Error ''connection refused''))\<rparr>"

definition bulkCloseFails :: env where
  "bulkCloseFails = reliableEnv\<lparr>bulkClose := (\<lambda>tr. Inl (Error ''kill failed''))\<rparr>"

definition watchStopFails :: env where
  "watchStopFails = reliableEnv\<lparr>watchStop := (\<lambda>tr. Inl (Error ''watcher gone''))\<rparr>"

definition sampleConnection :: connection where
  "sampleConnection = \<lparr>userId = ''u1'', isOwner = True, socket = 7\<rparr>"

definition guestConnection :: connection where
  "guestConnection = \<lparr>userId = ''u2'', isOwner = False, socket = 8\<rparr>"

definition staleProject :: project where
  "staleProject = newProject ''p1'' ''reactjs'' ''sbx-old''"

definition staleConnected :: project where
  "staleConnected = staleProject\<lparr>container := Some (Container ''sbx-old'')\<rparr>"

definition readyProject :: project where
  "readyProject = staleProject\<lparr>container := Some (Container ''sbx-new''),
     containerId := Some ''sbx-new''\<rparr>"

definition initializedProject :: project where
  "initializedProject = readyProject\<lparr>
     fileManager := Some (newFileManager (Container ''sbx-new'')),
     terminalManager := Some (newTerminalManager (Container ''sbx-new''))\<rparr>"

text \<open>A session in use: one terminal, \<^verbatim>\<open>t1\<close>, is registered.\<close>

definition busyProject :: project where
  "busyProject = initializedProject\<lparr>
     terminalManager := Some \<lparr>sandbox = Container ''sbx-new'',
       terminals = [(''t1'', \<lparr>onData = (\<lambda>chunk cont. [])\<rparr>)]\<rparr>\<rparr>"

section \<open>Concurrent calls of \<open>initialize\<close>\<close>

text \<open>
  Several connections call \<open>initialize\<close> on one project session. The server is a
  single-threaded event loop: a call runs until its next \<^verbatim>\<open>await\<close> and then lets any
  other call run. Each call is a task with a program counter; one step of a task is the code
  from one \<^verbatim>\<open>await\<close> to the next, an awaited call to a collaborator being answered
  within the step. A step ends after every statement of the critical section, also where
  the statement awaits nothing, which gives the scheduler no less freedom than the event
  loop has. The steps inside the critical section are the statements of
  \<open>initialize\<close> introduced above (\<open>connectStep\<close>, \<open>needsCreate\<close>, \<open>createCall\<close>,
  \<open>persistId\<close>) and the step after the lock is \<open>afterLock\<close>.
\<close>

datatype pc = Start | Queued | AtConnect | AtCheck | AtCreate | AtDbUpdate
  | Releasing "error + unit" | AfterLock | Done "error + unit"

record system =
  shared :: session
  holder :: "nat option"
  waiting :: "nat list"
  pcs :: "nat \<Rightarrow> pc"

text \<open>
  Modelled from the spec: \<^verbatim>\<open>utils/lock.ts\<close> is not among the sources. The keyed mutex
  of the spec (3 and 4.1) is a "current-holder flag" and a "queue of pending acquirers",
  with "waiters served in submission order". All tasks ask for the same key, the project
  id. A request takes the free lock or joins the queue.
\<close>

definition request :: "nat \<Rightarrow> system \<Rightarrow> system" where
  "request i \<sigma> =
     (case holder \<sigma> of
        None \<Rightarrow> \<sigma>\<lparr>holder := Some i, pcs := (pcs \<sigma>)(i := AtConnect)\<rparr>
      | Some j \<Rightarrow> \<sigma>\<lparr>waiting := waiting \<sigma> @ [i], pcs := (pcs \<sigma>)(i := Queued)\<rparr>)"

text \<open>
  Modelled from the spec: the lock is released "on every exit path, including error
  paths", and "the failure propagates to the caller": the releasing task goes on after the
  lock or ends with the error, and the lock passes to the first waiter, if any.
\<close>

definition release :: "nat \<Rightarrow> error + unit \<Rightarrow> system \<Rightarrow> system" where
  "release i r \<sigma> =
     (let after = (case r of Inl e \<Rightarrow> Done (Inl e) | Inr u \<Rightarrow> AfterLock)
      in case waiting \<sigma> of
           [] \<Rightarrow> \<sigma>\<lparr>holder := None, pcs := (pcs \<sigma>)(i := after)\<rparr>
         | j # q \<Rightarrow>
             \<sigma>\<lparr>holder := Some j, waiting := q, pcs := (pcs \<sigma>)(i := after, j := AtConnect)\<rparr>)"

text \<open>
  Modelled from the spec: one step of task \<open>i\<close> in the cooperative event loop (spec 5).
  A queued or finished task has no step of its own.
\<close>

definition step :: "env \<Rightarrow> nat \<Rightarrow> system \<Rightarrow> system" where
  "step E i \<sigma> =
     (case pcs \<sigma> i of
        Start \<Rightarrow> request i \<sigma>
      | Queued \<Rightarrow> \<sigma>
      | AtConnect \<Rightarrow>
          (case connectStep E (shared \<sigma>) of
             (Inl e, s) \<Rightarrow> \<sigma>\<lparr>shared := s, pcs := (pcs \<sigma>)(i := Releasing (Inl e))\<rparr>
           | (Inr u, s) \<Rightarrow> \<sigma>\<lparr>shared := s, pcs := (pcs \<sigma>)(i := AtCheck)\<rparr>)
      | AtCheck \<Rightarrow>
          (case needsCreate E (shared \<sigma>) of
             (Inl e, s) \<Rightarrow> \<sigma>\<lparr>shared := s, pcs := (pcs \<sigma>)(i := Releasing (Inl e))\<rparr>
           | (Inr True, s) \<Rightarrow> \<sigma>\<lparr>shared := s, pcs := (pcs \<sigma>)(i := AtCreate)\<rparr>
           | (Inr False, s) \<Rightarrow> \<sigma>\<lparr>shared := s, pcs := (pcs \<sigma>)(i := Releasing (Inr ()))\<rparr>)
      | AtCreate \<Rightarrow>
          (case createCall E (shared \<sigma>) of
             (Inl e, s) \<Rightarrow> \<sigma>\<lparr>shared := s, pcs := (pcs \<sigma>)(i := Releasing (Inl e))\<rparr>
           | (Inr u, s) \<Rightarrow> \<sigma>\<lparr>shared := s, pcs := (pcs \<sigma>)(i := AtDbUpdate)\<rparr>)
      | AtDbUpdate \<Rightarrow>
          (case persistId E (shared \<sigma>) of
             (r, s) \<Rightarrow> \<sigma>\<lparr>shared := s, pcs := (pcs \<sigma>)(i := Releasing r)\<rparr>)
      | Releasing r \<Rightarrow> release i r \<sigma>
      | AfterLock \<Rightarrow>
          (case afterLock (shared \<sigma>) of
             (r, s) \<Rightarrow> \<sigma>\<lparr>shared := s, pcs := (pcs \<sigma>)(i := Done r)\<rparr>)
      | Done r \<Rightarrow> \<sigma>)"

text \<open>A schedule names the task that takes each next step; any list is a schedule.\<close>

fun run :: "env \<Rightarrow> nat list \<Rightarrow> system \<Rightarrow> system" where
  "run E [] \<sigma> = \<sigma>"
| "run E (i # schedule) \<sigma> = run E schedule (step E i \<sigma>)"

definition initial :: "session \<Rightarrow> system" where
  "initial s = \<lparr>shared = s, holder = None, waiting = [], pcs = (\<lambda>i. Start)\<rparr>"

text \<open>
  What the sandbox service is assumed to guarantee for creations to be counted: a
  \<^verbatim>\<open>connect\<close> that returns gives a handle of the id asked for; a creation does not throw;
  and a sandbox, once created, is reported running whenever it is asked about later.
\<close>

definition reliable :: "env \<Rightarrow> bool" where
  "reliable E =
     ((\<forall>tr cid h. connect E tr cid (CONTAINER_TIMEOUT E) = Inr h \<longrightarrow> sandboxId h = cid)
      \<and> (\<forall>tr t. \<exists>h. create E tr t (CONTAINER_TIMEOUT E) = Inr h)
      \<and> (\<forall>tr t h rest h'.
            create E tr t (CONTAINER_TIMEOUT E) = Inr h \<and> sandboxId h' = sandboxId h \<longrightarrow>
            isRunning E (tr @ Create t (CONTAINER_TIMEOUT E) # rest) h' = Inr True))"

text \<open>The program counters inside the critical section, and those that have left it
  without an error.\<close>

fun critical :: "pc \<Rightarrow> bool" where
  "critical AtConnect = True"
| "critical AtCheck = True"
| "critical AtCreate = True"
| "critical AtDbUpdate = True"
| "critical (Releasing r) = True"
| "critical c = False"

fun passed :: "pc \<Rightarrow> bool" where
  "passed AtDbUpdate = True"
| "passed (Releasing (Inr u)) = True"
| "passed AfterLock = True"
| "passed (Done (Inr u)) = True"
| "passed c = False"

text \<open>
  The invariants of the proofs. \<open>created\<close>: either no creation has been called, or exactly
  one has, it returned a handle, and the session's last-known id and handle are that
  sandbox's. \<open>lockInv\<close>: the tasks inside the critical section are exactly the holder of
  the lock, the waiters are queued, each once, and a task about to create has seen no
  creation. \<open>progressInv\<close>, for a session that starts without handle and id: they stay absent
  until a creation is called, every creation asks for the template of the project type, and
  a task that left the section without error left a handle behind.
\<close>

definition created :: "env \<Rightarrow> session \<Rightarrow> bool" where
  "created E s =
     (creations (snd s) = []
      \<or> (\<exists>tr0 t h rest.
            snd s = tr0 @ Create t (CONTAINER_TIMEOUT E) # rest
            \<and> creations tr0 = [] \<and> creations rest = []
            \<and> create E tr0 t (CONTAINER_TIMEOUT E) = Inr h
            \<and> containerId (fst s) = Some (sandboxId h)
            \<and> (\<exists>h'. container (fst s) = Some h' \<and> sandboxId h' = sandboxId h)))"

definition lockInv :: "env \<Rightarrow> system \<Rightarrow> bool" where
  "lockInv E \<sigma> =
     ((\<forall>i. critical (pcs \<sigma> i) = (holder \<sigma> = Some i))
      \<and> (\<forall>j \<in> set (waiting \<sigma>). pcs \<sigma> j = Queued)
      \<and> distinct (waiting \<sigma>)
      \<and> (\<forall>i. pcs \<sigma> i = AtCreate \<longrightarrow> creations (snd (shared \<sigma>)) = [])
      \<and> created E (shared \<sigma>))"

definition progressInv :: "string \<Rightarrow> system \<Rightarrow> bool" where
  "progressInv ty \<sigma> =
     (type (fst (shared \<sigma>)) = ty
      \<and> (creations (snd (shared \<sigma>)) = [] \<longrightarrow>
           container (fst (shared \<sigma>)) = None \<and> \<not> truthyString (containerId (fst (shared \<sigma>))))
      \<and> set (creations (snd (shared \<sigma>))) \<subseteq> {template ty}
      \<and> (\<forall>i. passed (pcs \<sigma> i) \<longrightarrow> container (fst (shared \<sigma>)) \<noteq> None))"

text \<open>
  \<open>mutexInv\<close> is the lock's part of \<open>lockInv\<close>, which holds whatever the sandbox
  service does. \<open>runningThroughout E cid\<close>: the service reports the sandbox \<open>cid\<close> as
  running whenever it is asked. \<open>knownInv\<close>, for a session whose last-known sandbox is
  running throughout: the last-known id stays, no creation is called, no task is about to
  create or to write, and a task at the check has the handle of that sandbox before it.
\<close>

definition mutexInv :: "system \<Rightarrow> bool" where
  "mutexInv \<sigma> =
     ((\<forall>i. critical (pcs \<sigma> i) = (holder \<sigma> = Some i))
      \<and> (\<forall>j \<in> set (waiting \<sigma>). pcs \<sigma> j = Queued)
      \<and> distinct (waiting \<sigma>))"

definition runningThroughout :: "env \<Rightarrow> string \<Rightarrow> bool" where
  "runningThroughout E cid = (\<forall>tr h. sandboxId h = cid \<longrightarrow> isRunning E tr h = Inr True)"

definition knownInv :: "string \<Rightarrow> system \<Rightarrow> bool" where
  "knownInv cid \<sigma> =
     (containerId (fst (shared \<sigma>)) = Some cid
      \<and> creations (snd (shared \<sigma>)) = []
      \<and> (\<forall>i. pcs \<sigma> i \<noteq> AtCreate \<and> pcs \<sigma> i \<noteq> AtDbUpdate)
      \<and> (\<forall>i. pcs \<sigma> i = AtCheck \<longrightarrow>
            (\<exists>h. container (fst (shared \<sigma>)) = Some h \<and> sandboxId h = cid)))"

text \<open>A task running alone, and the system after it has finished.\<close>

definition alone :: "session \<Rightarrow> pc \<Rightarrow> system" where
  "alone s c = \<lparr>shared = s, holder = Some 0, waiting = [], pcs = (\<lambda>i. Start)(0 := c)\<rparr>"

definition finished :: "session \<Rightarrow> error + unit \<Rightarrow> system" where
  "finished s r = \<lparr>shared = s, holder = None, waiting = [], pcs = (\<lambda>i. Start)(0 := Done r)\<rparr>"

text \<open>
  Sample sessions: one without a last-known id, one whose last-known id is the running
  sandbox \<^verbatim>\<open>sbx-new\<close>. Two schedules of the tasks 0 and 1 in which task 1 asks for the lock
  while task 0 holds it.
\<close>

definition freshProject :: project where
  "freshProject = newProject ''p1'' ''reactjs'' ''''"

definition schedule2 :: "nat list" where
  "schedule2 = [0, 1, 0, 0, 0, 0, 0, 1, 0, 1, 1, 1]"

definition scheduleReady :: "nat list" where
  "scheduleReady = [0, 1, 0, 0, 0, 0, 1, 1, 1, 1]"

definition knownProject :: project where
  "knownProject = newProject ''p1'' ''reactjs'' ''sbx-new''"

text \<open>A service that reports every sandbox as stopped, also the one it has just created.\<close>

definition neverRunning :: env where
  "neverRunning = reliableEnv\<lparr>isRunning := (\<lambda>tr h. Inr False)\<rparr>"

lemmas scan_defs = ESC_def isParam_def isDigit_def urlPrefix_def parseInt_def decimal_def
  digitValue_def truthyNumber_def


lemmas sample_defs = reliableEnv_def createFails_def connectFails_def timeoutFails_def
  writeFails_def bulkCloseFails_def watchStopFails_def
  neverRunning_def
  staleProject_def staleConnected_def readyProject_def initializedProject_def busyProject_def
  newProject_def
  newTerminalManager_def newFileManager_def sampleConnection_def guestConnection_def

section \<open>The matcher finds exactly the embedded local URLs\<close>

lemma matchPort_Some_contains:
  "matchPort s = Some ds \<Longrightarrow> containsLocalUrl s"
proof (induction s)
  case Nil
  then show ?case by simp
next
  case (Cons c cs)
  let ?s = "c # cs"
  show ?case
  proof (cases "take (length urlPrefix) ?s = urlPrefix
                 \<and> takeWhile isDigit (drop (length urlPrefix) ?s) \<noteq> []")
    case True
    then obtain d post where dp: "drop (length urlPrefix) ?s = d # post" and "isDigit d"
      by (cases "drop (length urlPrefix) ?s") (auto split: if_splits)
    have "?s = take (length urlPrefix) ?s @ drop (length urlPrefix) ?s"
      by (rule append_take_drop_id [symmetric])
    with True dp have "?s = [] @ urlPrefix @ d # post" by simp
    with \<open>isDigit d\<close> show ?thesis unfolding containsLocalUrl_def by blast
  next
    case False
    with Cons.prems have "matchPort cs = Some ds" by (simp del: take_Cons' drop_Cons')
    then have "containsLocalUrl cs" by (rule Cons.IH)
    then obtain pre d post where "cs = pre @ urlPrefix @ d # post" "isDigit d"
      unfolding containsLocalUrl_def by blast
    then have "?s = (c # pre) @ urlPrefix @ d # post" by simp
    with \<open>isDigit d\<close> show ?thesis unfolding containsLocalUrl_def by blast
  qed
qed

lemma matchPort_at_prefix:
  assumes d: "isDigit d"
  shows "matchPort (urlPrefix @ d # post) \<noteq> None"
proof -
  have ne: "urlPrefix @ d # post = hd urlPrefix # (tl urlPrefix @ d # post)"
    by (simp add: urlPrefix_def)
  have "take (length urlPrefix) (urlPrefix @ d # post) = urlPrefix" by simp
  moreover have "takeWhile isDigit (drop (length urlPrefix) (urlPrefix @ d # post)) \<noteq> []"
    using d by simp
  ultimately show ?thesis
    by (subst ne, subst matchPort.simps(2), fold ne) simp
qed

lemma matchPort_append:
  "isDigit d \<Longrightarrow> matchPort (pre @ urlPrefix @ d # post) \<noteq> None"
proof (induction pre)
  case Nil
  then show ?case using matchPort_at_prefix by simp
next
  case (Cons x pre)
  then have "matchPort (pre @ urlPrefix @ d # post) \<noteq> None" by simp
  then show ?case by (simp del: take_Cons' drop_Cons')
qed

lemma matchPort_None_iff: "(matchPort s = None) = (\<not> containsLocalUrl s)"
proof
  assume none: "matchPort s = None"
  show "\<not> containsLocalUrl s"
  proof
    assume "containsLocalUrl s"
    then obtain pre d post where "s = pre @ urlPrefix @ d # post" "isDigit d"
      unfolding containsLocalUrl_def by blast
    then have "matchPort s \<noteq> None" using matchPort_append by simp
    with none show False by simp
  qed
next
  assume "\<not> containsLocalUrl s"
  then show "matchPort s = None"
    using matchPort_Some_contains by (cases "matchPort s") auto
qed

lemma extract_None_iff: "(extractPortNumber s = None) = (\<not> containsLocalUrl (stripAnsi s))"
  by (simp add: extractPortNumber_def matchPort_None_iff [symmetric] split: option.splits)

lemma sample_port: "extractPortNumber sampleOutput = Some (Exact 3001)"
  by (simp add: extractPortNumber_def sampleOutput_def scan_defs)

subsection \<open>The scanner removes exactly the colour sequences\<close>

lemma dropWhile_params:
  "list_all isParam ps \<Longrightarrow> dropWhile isParam (ps @ CHR ''m'' # rest) = CHR ''m'' # rest"
  by (induction ps) (simp_all add: isParam_def isDigit_def)

lemma stripAnsi_match:
  "dropWhile isParam rest = CHR ''m'' # rest' \<Longrightarrow>
     stripAnsi (ESC # CHR ''['' # rest) = stripAnsi rest'"
  by (subst stripAnsi.simps(2)) (simp del: stripAnsi.simps)

lemma stripAnsi_nomatch:
  "\<not> (c = ESC \<and> (\<exists>rest rest'. cs = CHR ''['' # rest
          \<and> dropWhile isParam rest = CHR ''m'' # rest')) \<Longrightarrow>
     stripAnsi (c # cs) = c # stripAnsi cs"
  by (subst stripAnsi.simps(2)) (auto simp del: stripAnsi.simps split: list.splits)

lemma stripAnsi_skip: "isSGR q \<Longrightarrow> stripAnsi (q @ rest) = stripAnsi rest"
proof -
  assume "isSGR q"
  then obtain ps where q: "q = ESC # CHR ''['' # ps @ ''m''" and ps: "list_all isParam ps"
    unfolding isSGR_def by blast
  from ps have "dropWhile isParam (ps @ CHR ''m'' # rest) = CHR ''m'' # rest"
    by (rule dropWhile_params)
  then have "stripAnsi (ESC # CHR ''['' # (ps @ CHR ''m'' # rest)) = stripAnsi rest"
    by (rule stripAnsi_match)
  with q show ?thesis by simp
qed

lemma stripAnsi_keep:
  assumes "\<not> (\<exists>q rest. isSGR q \<and> c # cs = q @ rest)"
  shows "stripAnsi (c # cs) = c # stripAnsi cs"
proof (rule stripAnsi_nomatch, rule notI)
  assume "c = ESC \<and> (\<exists>rest rest'. cs = CHR ''['' # rest
          \<and> dropWhile isParam rest = CHR ''m'' # rest')"
  then obtain rest rest' where c: "c = ESC" and cs: "cs = CHR ''['' # rest"
    and d: "dropWhile isParam rest = CHR ''m'' # rest'"
    by blast
  have "rest = takeWhile isParam rest @ dropWhile isParam rest" by simp
  with d have r: "rest = takeWhile isParam rest @ CHR ''m'' # rest'" by simp
  have "list_all isParam (takeWhile isParam rest)"
    by (simp add: list_all_iff) (meson set_takeWhileD)
  then have "isSGR (ESC # CHR ''['' # takeWhile isParam rest @ ''m'')"
    unfolding isSGR_def by blast
  moreover have "c # cs = (ESC # CHR ''['' # takeWhile isParam rest @ ''m'') @ rest'"
    using c cs r by simp
  ultimately show False using assms by blast
qed

lemma stripped_unique: "stripped s t \<Longrightarrow> t = stripAnsi s"
  by (induction rule: stripped.induct)
    (simp_all add: stripAnsi_skip stripAnsi_keep del: stripAnsi.simps(2))

lemma stripped_stripAnsi: "stripped s (stripAnsi s)"
proof (induction s rule: length_induct)
  case (1 s)
  show ?case
  proof (cases s)
    case Nil
    then show ?thesis by (simp add: stripped_end)
  next
    case (Cons c cs)
    show ?thesis
    proof (cases "\<exists>q rest. isSGR q \<and> c # cs = q @ rest")
      case True
      then obtain q rest where q: "isSGR q" and e: "c # cs = q @ rest" by blast
      from q have "q \<noteq> []" unfolding isSGR_def by auto
      with e Cons have "length rest < length s" by (metis append_eq_conv_conj length_drop diff_less length_greater_0_conv list.simps(3))
      with 1 have "stripped rest (stripAnsi rest)" by blast
      with q have "stripped (q @ rest) (stripAnsi rest)" by (rule stripped_skip)
      moreover from q have "stripAnsi (q @ rest) = stripAnsi rest" by (rule stripAnsi_skip)
      ultimately show ?thesis using e Cons by simp
    next
      case False
      from 1 Cons have "stripped cs (stripAnsi cs)" by simp
      with False have "stripped (c # cs) (c # stripAnsi cs)" by (rule stripped_keep)
      moreover from False have "stripAnsi (c # cs) = c # stripAnsi cs" by (rule stripAnsi_keep)
      ultimately show ?thesis using Cons by simp
    qed
  qed
qed

lemma stripped_iff: "stripped s t = (t = stripAnsi s)"
  using stripped_unique stripped_stripAnsi by blast


lemma stripped_sample: "stripped sampleOutput ''Server running at http://localhost:3001/''"
  by (simp add: stripped_iff sampleOutput_def scan_defs)

lemma stripped_boldReady: "stripped boldReady ''ready''"
  by (simp add: stripped_iff boldReady_def scan_defs)

lemma stripped_osc: "stripped oscOutput oscOutput"
  by (simp add: stripped_iff oscOutput_def scan_defs)

lemma osc_port: "extractPortNumber oscOutput = Some (Exact 3000)"
  by (simp add: extractPortNumber_def oscOutput_def scan_defs)

lemma ready_no_url: "\<not> containsLocalUrl ''ready''"
proof -
  have "matchPort ''ready'' = None" by (simp add: scan_defs)
  then show ?thesis using matchPort_None_iff by blast
qed

text \<open>
  Claim C5, as amended. On the specification's example, whose text without its colour
  sequences is \<^verbatim>\<open>Server running at http://localhost:3001/\<close>, the extracted port is 3001
  and the callback pushes, after the tagged output, one \<^verbatim>\<open>previewURL\<close> whose host is the
  handle's \<open>getHost\<close> of that port. Every input \<open>s\<close> has a text \<open>t\<close> that is \<open>s\<close> with its
  colour sequences (escape, \<^verbatim>\<open>[\<close>, digits and semicolons, \<^verbatim>\<open>m\<close>) removed. A port is
  extracted from \<open>s\<close> exactly when \<open>t\<close> contains \<^verbatim>\<open>http://localhost:\<close> followed by a digit;
  when it does not, the callback emits the tagged output alone. No other escape sequence
  is removed: \<open>oscOutput\<close> has no colour sequence, and the port 3000 of the URL inside its
  title sequence is extracted. On every input whatever the callback completes, having
  emitted the tagged output first.
\<close>

theorem preview_extraction:
  "stripped sampleOutput ''Server running at http://localhost:3001/''
   \<and> extractPortNumber sampleOutput = Some (Exact 3001)
   \<and> onTerminalResponse E conn ident sampleOutput (Some h) =
       [Emit (socket conn) (TerminalResponse (Some ident) sampleOutput),
        Emit (socket conn) (PreviewURL (''https://'' @ getHost E h (Exact 3001)))]
   \<and> (\<exists>t. stripped s t)
   \<and> (stripped s t \<longrightarrow> (extractPortNumber s = None) = (\<not> containsLocalUrl t))
   \<and> (stripped s t \<and> \<not> containsLocalUrl t \<longrightarrow>
        onTerminalResponse E conn ident s cont =
          [Emit (socket conn) (TerminalResponse (Some ident) s)])
   \<and> stripped oscOutput oscOutput
   \<and> extractPortNumber oscOutput = Some (Exact 3000)
   \<and> (\<exists>rest. onTerminalResponse E conn ident s cont =
         Emit (socket conn) (TerminalResponse (Some ident) s) # rest)"
proof -
  have a: "extractPortNumber sampleOutput = Some (Exact 3001)" by (rule sample_port)
  have b: "onTerminalResponse E conn ident sampleOutput (Some h) =
       [Emit (socket conn) (TerminalResponse (Some ident) sampleOutput),
        Emit (socket conn) (PreviewURL (''https://'' @ getHost E h (Exact 3001)))]"
    by (simp add: onTerminalResponse_def a truthyNumber_def)
  have t: "\<exists>t. stripped s t" using stripped_stripAnsi by blast
  have c: "stripped s t \<longrightarrow> (extractPortNumber s = None) = (\<not> containsLocalUrl t)"
    by (simp add: stripped_iff extract_None_iff)
  have c': "stripped s t \<and> \<not> containsLocalUrl t \<longrightarrow>
        onTerminalResponse E conn ident s cont =
          [Emit (socket conn) (TerminalResponse (Some ident) s)]"
  proof
    assume "stripped s t \<and> \<not> containsLocalUrl t"
    then have "extractPortNumber s = None" by (auto simp: stripped_iff extract_None_iff)
    then show "onTerminalResponse E conn ident s cont =
          [Emit (socket conn) (TerminalResponse (Some ident) s)]"
      by (simp add: onTerminalResponse_def)
  qed
  have d: "\<exists>rest. onTerminalResponse E conn ident s cont =
         Emit (socket conn) (TerminalResponse (Some ident) s) # rest"
    by (simp add: onTerminalResponse_def)
  show ?thesis
    using conjI [OF stripped_sample conjI [OF a conjI [OF b conjI [OF t conjI [OF c
      conjI [OF c' conjI [OF stripped_osc conjI [OF osc_port d]]]]]]]] .
qed

theorem preview_extraction_witness:
  "stripped boldReady ''ready''
   \<and> \<not> containsLocalUrl ''ready''
   \<and> extractPortNumber boldReady = None
   \<and> onTerminalResponse reliableEnv sampleConnection ''t1'' boldReady None =
       [Emit 7 (TerminalResponse (Some ''t1'') boldReady)]"
  using preview_extraction [of reliableEnv sampleConnection "''t1''" "Container ''sbx-new''"
      boldReady "''ready''" None] stripped_boldReady ready_no_url
  by (simp add: sampleConnection_def)

text \<open>
  The claim as written speaks of the input itself. \<open>boldPortOutput\<close> contains no
  \<^verbatim>\<open>http://localhost:\<close> followed by a digit (an escape sequence stands between the colon
  and the port), yet port 5173 is extracted from it and the preview event is pushed.
\<close>

theorem raw_substring_counterexample:
  "\<not> containsLocalUrl boldPortOutput
   \<and> extractPortNumber boldPortOutput = Some (Exact 5173)
   \<and> onTerminalResponse reliableEnv sampleConnection ''t1'' boldPortOutput
        (Some (Container ''sbx-new'')) =
       [Emit 7 (TerminalResponse (Some ''t1'') boldPortOutput),
        Emit 7 (PreviewURL ''https://sbx-new.sandbox.test'')]"
proof -
  have "matchPort boldPortOutput = None"
    by (simp add: boldPortOutput_def scan_defs)
  then have a: "\<not> containsLocalUrl boldPortOutput" by (simp add: matchPort_None_iff)
  have b: "extractPortNumber boldPortOutput = Some (Exact 5173)"
    by (simp add: extractPortNumber_def boldPortOutput_def scan_defs)
  have c: "onTerminalResponse reliableEnv sampleConnection ''t1'' boldPortOutput
        (Some (Container ''sbx-new'')) =
       [Emit 7 (TerminalResponse (Some ''t1'') boldPortOutput),
        Emit 7 (PreviewURL ''https://sbx-new.sandbox.test'')]"
    by (simp add: onTerminalResponse_def b truthyNumber_def sampleConnection_def reliableEnv_def)
  from a b c show ?thesis by blast
qed

section \<open>Reconciliation: \<open>initialize\<close>\<close>


lemma creations_append: "creations (xs @ ys) = creations xs @ creations ys"
  by (induction xs rule: creations.induct) simp_all
















section \<open>Heartbeat\<close>

text \<open>
  Claim C6. A heartbeat from a connection that is not the owner returns \<^verbatim>\<open>true\<close> and calls
  nothing (the trace is unchanged). From the owner, with a handle: when \<^verbatim>\<open>setTimeout\<close>
  throws the handler returns \<^verbatim>\<open>false\<close>, as a value; when it returns, \<^verbatim>\<open>true\<close>.
\<close>

theorem heartbeat_owner_gated:
  "(\<not> isOwner conn \<longrightarrow> handleHeartbeat E conn (p, tr) = (Inr True, p, tr))
   \<and> (isOwner conn \<and> container p = Some h
        \<and> setTimeout E tr h (CONTAINER_TIMEOUT E) = Inl e \<longrightarrow>
        handleHeartbeat E conn (p, tr) = (Inr False, p, tr @ [SetTimeout h (CONTAINER_TIMEOUT E)]))
   \<and> (isOwner conn \<and> container p = Some h
        \<and> setTimeout E tr h (CONTAINER_TIMEOUT E) = Inr () \<longrightarrow>
        handleHeartbeat E conn (p, tr) = (Inr True, p, tr @ [SetTimeout h (CONTAINER_TIMEOUT E)]))"
  by (simp add: handleHeartbeat_def)

theorem heartbeat_owner_gated_witness:
  "handleHeartbeat timeoutFails guestConnection (readyProject, []) = (Inr True, readyProject, [])
   \<and> handleHeartbeat timeoutFails sampleConnection (readyProject, []) =
       (Inr False, readyProject, [SetTimeout (Container ''sbx-new'') 60000])
   \<and> handleHeartbeat reliableEnv sampleConnection (readyProject, []) =
       (Inr True, readyProject, [SetTimeout (Container ''sbx-new'') 60000])"
proof -
  have g: "\<not> isOwner guestConnection" by (simp add: guestConnection_def)
  have o: "isOwner sampleConnection" by (simp add: sampleConnection_def)
  have c: "container readyProject = Some (Container ''sbx-new'')" by (simp add: readyProject_def)
  have f: "setTimeout timeoutFails [] (Container ''sbx-new'') (CONTAINER_TIMEOUT timeoutFails)
             = Inl (Error ''sandbox paused'')"
    by (simp add: timeoutFails_def)
  have s: "setTimeout reliableEnv [] (Container ''sbx-new'') (CONTAINER_TIMEOUT reliableEnv)
             = Inr ()"
    by (simp add: reliableEnv_def)
  have t: "CONTAINER_TIMEOUT timeoutFails = 60000" "CONTAINER_TIMEOUT reliableEnv = 60000"
    by (simp_all add: timeoutFails_def reliableEnv_def)
  show ?thesis
    using heartbeat_owner_gated [of guestConnection timeoutFails readyProject "[]"]
      heartbeat_owner_gated [of sampleConnection timeoutFails readyProject "[]"
        "Container ''sbx-new''" "Error ''sandbox paused''"]
      heartbeat_owner_gated [of sampleConnection reliableEnv readyProject "[]"
        "Container ''sbx-new''"]
      g o c f s t
    by simp
qed

text \<open>
  Claim C10. A heartbeat from the owner while the session has no handle returns \<^verbatim>\<open>true\<close>
  and calls nothing.
\<close>

theorem heartbeat_without_handle:
  "isOwner conn \<Longrightarrow> container p = None \<Longrightarrow> handleHeartbeat E conn (p, tr) = (Inr True, p, tr)"
  by (simp add: handleHeartbeat_def)

theorem heartbeat_without_handle_witness:
  "isOwner sampleConnection \<and> container staleProject = None
   \<and> handleHeartbeat timeoutFails sampleConnection (staleProject, []) = (Inr True, staleProject, [])"
proof -
  have o: "isOwner sampleConnection" by (simp add: sampleConnection_def)
  have c: "container staleProject = None" by (simp add: staleProject_def newProject_def)
  from heartbeat_without_handle [OF o c] o c show ?thesis by simp
qed

section \<open>Terminals\<close>

text \<open>
  Claim C8, as amended. Whatever chunk the callback built by \<^verbatim>\<open>handleCreateTerminal\<close> for
  the logical id \<open>ident\<close> is given, it emits exactly one \<^verbatim>\<open>terminalResponse\<close>: on the socket
  of the connection that created the terminal, tagged with \<open>ident\<close>, carrying the chunk.
\<close>

theorem terminal_output_tagged:
  "terminalResponses (onTerminalResponse E conn ident chunk cont)
     = [(socket conn, Some ident, chunk)]"
  by (simp add: onTerminalResponse_def split: option.splits)

text \<open>
  The claim as written covers every terminal made by a \<^verbatim>\<open>createTerminal\<close> event. The
  listener of \<open>index.ts\<close> makes \<^verbatim>\<open>new Pty(socket, id)\<close>, and what that terminal's process
  prints is emitted without any id.
\<close>

theorem pty_output_untagged:
  "terminalResponses (ptyOnData (newPty 7 ''A'') ''x'') = [(7, None, ''x'')]"
  by (simp add: ptyOnData_def send_def newPty_def)

text \<open>
  The handler registers that callback under the id it was given (the registry being the
  multiplexer's, as the specification describes it).
\<close>

lemma handleCreateTerminal_registers:
  assumes "terminalManager p = Some tm"
    and "handleCreateTerminal E conn ident (p, tr) = (r, p', tr')"
  shows "\<exists>tm'. terminalManager p' = Some tm'
           \<and> map_of (terminals tm') ident = Some \<lparr>onData = onTerminalResponse E conn ident\<rparr>"
  using assms by (auto simp: handleCreateTerminal_def acquireLock_def createTerminal_def)

text \<open>
  Claim C7, where the code departs from it. The \<^verbatim>\<open>terminalData\<close> listener of \<open>index.ts\<close>
  guards with \<^verbatim>\<open>!terminals[id]\<close>. With no terminal registered at all, the id
  \<^verbatim>\<open>constructor\<close> passes the guard, since the empty object inherits a member of that name,
  and the call of its missing \<^verbatim>\<open>write\<close> throws.
\<close>

theorem terminalData_inherited_key:
  "terminalDataListener emptyObject ''constructor'' ''ls'' [] =
     (Inl (TypeError ''terminals[id].write is not a function''), [])"
  by (simp add: terminalDataListener_def emptyObject_def objectPrototypeKeys_def)

text \<open>
  While no terminal is registered, on every id that is not a member name of
  \<^verbatim>\<open>Object.prototype\<close> the listener returns having done nothing. So do the three
  handlers of the project session: without a multiplexer by the optional call in
  \<open>services/Project.ts\<close> itself, and on an unregistered id by the multiplexer's contract.
\<close>

lemma terminalData_unknown_id:
  "ident \<notin> set objectPrototypeKeys \<Longrightarrow>
     terminalDataListener emptyObject ident data tr = (Inr (), tr)"
  by (simp add: terminalDataListener_def emptyObject_def)

lemma handlers_without_multiplexer:
  "terminalManager p = None \<Longrightarrow>
     handleResizeTerminal dims (p, tr) = (Inr (), p, tr)
     \<and> handleTerminalData ident data (p, tr) = (Inr (), p, tr)
     \<and> handleCloseTerminal ident (p, tr) = (Inr (), p, tr)"
  by (simp add: handleResizeTerminal_def handleTerminalData_def handleCloseTerminal_def)

lemma handlers_unknown_id:
  "terminalManager p = Some tm \<Longrightarrow> ident \<notin> fst ` set (terminals tm) \<Longrightarrow>
     handleTerminalData ident data (p, tr) = (Inr (), p, tr)
     \<and> handleCloseTerminal ident (p, tr) = (Inr (), p, tr)"
  by (simp add: handleTerminalData_def handleCloseTerminal_def sendTerminalData_def
      closeTerminal_def)

lemma resize_without_terminals:
  "terminalManager p = Some tm \<Longrightarrow> terminals tm = [] \<Longrightarrow>
     handleResizeTerminal dims (p, tr) = (Inr (), p, tr)"
  by (simp add: handleResizeTerminal_def resizeTerminal_def)

section \<open>Disconnect\<close>

text \<open>
  Claim C9, as amended. \<open>disconnect\<close> never touches the handle or the last-known id. When
  the bulk close returns (or there is no multiplexer) and \<^verbatim>\<open>stopWatching\<close> returns (or
  there is no file adapter), \<open>disconnect\<close> returns with both references \<^verbatim>\<open>null\<close>, having
  called the bulk close, which closed every registered terminal, and then
  \<^verbatim>\<open>stopWatching\<close>. When the bulk close rejects, \<open>disconnect\<close> fails with that error and
  the session is as it was: neither reference is nulled and \<^verbatim>\<open>stopWatching\<close> is not
  called. When \<^verbatim>\<open>stopWatching\<close> rejects, \<open>disconnect\<close> fails with that error, the
  multiplexer reference nulled and the file adapter kept.
\<close>

theorem disconnect_effects:
  "container (fst (snd (disconnect E (p, tr)))) = container p
   \<and> containerId (fst (snd (disconnect E (p, tr)))) = containerId p
   \<and> ((terminalManager p = None \<or> bulkClose E tr = Inr ())
        \<and> (fileManager p = None \<or> watchStop E (tr @ closing p) = Inr ()) \<longrightarrow>
        disconnect E (p, tr) =
          (Inr (), p\<lparr>terminalManager := None, fileManager := None\<rparr>,
           tr @ closing p @ (case fileManager p of None \<Rightarrow> [] | Some fm \<Rightarrow> [StopWatching])))
   \<and> (terminalManager p \<noteq> None \<and> bulkClose E tr = Inl e \<longrightarrow>
        disconnect E (p, tr) = (Inl e, p, tr @ [CloseAllTerminals]))
   \<and> ((terminalManager p = None \<or> bulkClose E tr = Inr ())
        \<and> fileManager p \<noteq> None \<and> watchStop E (tr @ closing p) = Inl e \<longrightarrow>
        disconnect E (p, tr) =
          (Inl e, p\<lparr>terminalManager := None\<rparr>, tr @ closing p @ [StopWatching]))"
proof -
  have frame: "container (fst (snd (disconnect E (p, tr)))) = container p
      \<and> containerId (fst (snd (disconnect E (p, tr)))) = containerId p"
    by (simp add: disconnect_def closeAllTerminals_def stopWatching_def Let_def
        split: option.splits sum.splits prod.splits)
  have ok: "(terminalManager p = None \<or> bulkClose E tr = Inr ())
        \<and> (fileManager p = None \<or> watchStop E (tr @ closing p) = Inr ()) \<longrightarrow>
        disconnect E (p, tr) =
          (Inr (), p\<lparr>terminalManager := None, fileManager := None\<rparr>,
           tr @ closing p @ (case fileManager p of None \<Rightarrow> [] | Some fm \<Rightarrow> [StopWatching]))"
    by (auto simp: disconnect_def closeAllTerminals_def stopWatching_def closing_def Let_def
        split: option.splits)
  have close: "terminalManager p \<noteq> None \<and> bulkClose E tr = Inl e \<longrightarrow>
        disconnect E (p, tr) = (Inl e, p, tr @ [CloseAllTerminals])"
    by (auto simp: disconnect_def closeAllTerminals_def)
  have watch: "(terminalManager p = None \<or> bulkClose E tr = Inr ())
        \<and> fileManager p \<noteq> None \<and> watchStop E (tr @ closing p) = Inl e \<longrightarrow>
        disconnect E (p, tr) =
          (Inl e, p\<lparr>terminalManager := None\<rparr>, tr @ closing p @ [StopWatching])"
    by (auto simp: disconnect_def closeAllTerminals_def stopWatching_def closing_def Let_def
        split: option.splits)
  show ?thesis using conjI [OF frame conjI [OF ok conjI [OF close watch]]] by simp
qed

theorem disconnect_effects_witness:
  "disconnect reliableEnv (busyProject, []) =
     (Inr (), readyProject, [CloseAllTerminals, PtyClose ''t1'', StopWatching])
   \<and> container readyProject = container busyProject
   \<and> containerId readyProject = containerId busyProject
   \<and> disconnect bulkCloseFails (busyProject, []) =
       (Inl (Error ''kill failed''), busyProject, [CloseAllTerminals])
   \<and> disconnect watchStopFails (busyProject, []) =
       (Inl (Error ''watcher gone''), busyProject\<lparr>terminalManager := None\<rparr>,
        [CloseAllTerminals, PtyClose ''t1'', StopWatching])"
proof -
  have tm: "terminalManager busyProject \<noteq> None" and fm: "fileManager busyProject \<noteq> None"
    by (simp_all add: sample_defs)
  have cl: "closing busyProject = [CloseAllTerminals, PtyClose ''t1'']"
    by (simp add: closing_def sample_defs)
  have nul: "busyProject\<lparr>terminalManager := None, fileManager := None\<rparr> = readyProject"
    by (simp add: sample_defs)
  have e1: "bulkClose reliableEnv [] = Inr ()" "watchStop reliableEnv ([] @ closing busyProject) = Inr ()"
    by (simp_all add: sample_defs)
  have e2: "bulkClose bulkCloseFails [] = Inl (Error ''kill failed'')"
    by (simp add: sample_defs)
  have e3: "bulkClose watchStopFails [] = Inr ()"
    "watchStop watchStopFails ([] @ closing busyProject) = Inl (Error ''watcher gone'')"
    by (simp_all add: sample_defs)
  have fr: "container readyProject = container busyProject"
    "containerId readyProject = containerId busyProject"
    by (simp_all add: sample_defs)
  have fmcase: "(case fileManager busyProject of None \<Rightarrow> [] | Some fm \<Rightarrow> [StopWatching])
      = [StopWatching]"
    by (simp add: sample_defs)
  from disconnect_effects [of reliableEnv busyProject "[]"] e1
  have a: "disconnect reliableEnv (busyProject, []) =
     (Inr (), readyProject, [CloseAllTerminals, PtyClose ''t1'', StopWatching])"
    by (simp add: cl nul fmcase)
  from disconnect_effects [of bulkCloseFails busyProject "[]" "Error ''kill failed''"] tm e2
  have b: "disconnect bulkCloseFails (busyProject, []) =
       (Inl (Error ''kill failed''), busyProject, [CloseAllTerminals])"
    by simp
  from disconnect_effects [of watchStopFails busyProject "[]" "Error ''watcher gone''"] fm e3
  have c: "disconnect watchStopFails (busyProject, []) =
       (Inl (Error ''watcher gone''), busyProject\<lparr>terminalManager := None\<rparr>,
        [CloseAllTerminals, PtyClose ''t1'', StopWatching])"
    by (simp add: cl)
  from a b c fr show ?thesis by simp
qed

text \<open>
  The claim as written has \<open>disconnect\<close> null both references whatever happens. Here the
  bulk close rejects: \<open>disconnect\<close> fails, the multiplexer reference and the file adapter
  reference are still in the session, and watching was not stopped.
\<close>

theorem bulk_close_failure_counterexample:
  "fst (disconnect bulkCloseFails (busyProject, [])) = Inl (Error ''kill failed'')
   \<and> map_option sandbox
         (terminalManager (fst (snd (disconnect bulkCloseFails (busyProject, [])))))
       = Some (Container ''sbx-new'')
   \<and> fileManager (fst (snd (disconnect bulkCloseFails (busyProject, []))))
       = Some (newFileManager (Container ''sbx-new''))
   \<and> snd (snd (disconnect bulkCloseFails (busyProject, []))) = [CloseAllTerminals]"
  by (simp add: disconnect_def closeAllTerminals_def sample_defs)

section \<open>Serialised reconciliation under concurrent calls\<close>

subsection \<open>What each statement of the critical section does to the creation record\<close>

lemma creations_snoc [simp]:
  "creations (tr @ [Connect c ms]) = creations tr"
  "creations (tr @ [IsRunning h]) = creations tr"
  "creations (tr @ [DbUpdate pid v]) = creations tr"
  "creations (tr @ [Create t ms]) = creations tr @ [t]"
  by (simp_all add: creations_append)

lemma createdI:
  assumes "tr = tr0 @ Create t (CONTAINER_TIMEOUT E) # rest"
    and "creations tr0 = []" and "creations rest = []"
    and "create E tr0 t (CONTAINER_TIMEOUT E) = Inr h"
    and "containerId p = Some (sandboxId h)"
    and "container p = Some h'" and "sandboxId h' = sandboxId h"
  shows "created E (p, tr)"
  unfolding created_def using assms by force

lemma created_grow:
  assumes "created E (p, tr)" and "creations [ev] = []"
    and "containerId p' = containerId p"
    and "\<And>h. container p = Some h \<Longrightarrow> \<exists>h'. container p' = Some h' \<and> sandboxId h' = sandboxId h"
  shows "created E (p', tr @ [ev])"
proof (cases "creations tr = []")
  case True
  with assms(2) show ?thesis by (simp add: created_def creations_append)
next
  case False
  with assms(1) obtain tr0 t h rest h' where
    *: "tr = tr0 @ Create t (CONTAINER_TIMEOUT E) # rest" "creations tr0 = []" "creations rest = []"
       "create E tr0 t (CONTAINER_TIMEOUT E) = Inr h" "containerId p = Some (sandboxId h)"
       "container p = Some h'" "sandboxId h' = sandboxId h"
    unfolding created_def by auto
  from assms(4) [OF *(6)] obtain h'' where h'': "container p' = Some h''" "sandboxId h'' = sandboxId h'"
    by blast
  have "tr @ [ev] = tr0 @ Create t (CONTAINER_TIMEOUT E) # (rest @ [ev])" using *(1) by simp
  moreover have "creations (rest @ [ev]) = []" using *(3) assms(2) by (simp add: creations_append)
  ultimately show ?thesis
    using * h'' assms(3)
    by (intro createdI [where ?tr0.0 = tr0 and rest = "rest @ [ev]" and h = h and h' = h''])
       simp_all
qed

lemma created_same_trace:
  assumes "created E (p, tr)"
    and "containerId p' = containerId p" and "container p' = container p"
  shows "created E (p', tr)"
  using assms unfolding created_def by auto

lemma connectStep_created:
  assumes "reliable E" and "created E s" and "connectStep E s = (r, s')"
  shows "created E s' \<and> creations (snd s') = creations (snd s)"
proof -
  obtain p tr where s: "s = (p, tr)" by (cases s)
  show ?thesis
  proof (cases "containerId p")
    case None
    with assms s show ?thesis by (simp add: connectStep_def)
  next
    case (Some cid)
    show ?thesis
    proof (cases "cid = []")
      case True
      with Some assms s show ?thesis by (simp add: connectStep_def)
    next
      case False
      show ?thesis
      proof (cases "connect E tr cid (CONTAINER_TIMEOUT E)")
        case (Inl e)
        with Some False assms(3) s have s': "s' = (p, tr @ [Connect cid (CONTAINER_TIMEOUT E)])"
          by (simp add: connectStep_def)
        have "created E (p, tr @ [Connect cid (CONTAINER_TIMEOUT E)])"
          using assms(2) s by (intro created_grow) auto
        with s' s show ?thesis by simp
      next
        case (Inr h)
        with Some False assms(3) s
        have s': "s' = (p\<lparr>container := Some h\<rparr>, tr @ [Connect cid (CONTAINER_TIMEOUT E)])"
          by (simp add: connectStep_def)
        from Inr assms(1) have hid: "sandboxId h = cid" unfolding reliable_def by blast
        show ?thesis
        proof (cases "creations tr = []")
          case True
          with s s' show ?thesis by (simp add: created_def)
        next
          case nonempty: False
          with assms(2) s obtain tr0 t h0 rest where
            *: "tr = tr0 @ Create t (CONTAINER_TIMEOUT E) # rest" "creations tr0 = []"
               "creations rest = []" "create E tr0 t (CONTAINER_TIMEOUT E) = Inr h0"
               "containerId p = Some (sandboxId h0)"
            unfolding created_def by auto
          from *(5) Some hid have same: "sandboxId h = sandboxId h0" by simp
          have "tr @ [Connect cid (CONTAINER_TIMEOUT E)]
                  = tr0 @ Create t (CONTAINER_TIMEOUT E) # (rest @ [Connect cid (CONTAINER_TIMEOUT E)])"
            using *(1) by simp
          moreover have "creations (rest @ [Connect cid (CONTAINER_TIMEOUT E)]) = []"
            using *(3) by simp
          ultimately have "created E s'"
            unfolding s' using * same
            by (intro createdI [where ?tr0.0 = tr0 and h = h0 and h' = h
                  and rest = "rest @ [Connect cid (CONTAINER_TIMEOUT E)]"]) simp_all
          with s s' show ?thesis by simp
        qed
      qed
    qed
  qed
qed

lemma needsCreate_created:
  assumes "created E s" and "needsCreate E s = (r, s')"
  shows "created E s' \<and> creations (snd s') = creations (snd s)"
proof -
  obtain p tr where s: "s = (p, tr)" by (cases s)
  show ?thesis
  proof (cases "container p")
    case None
    with assms s show ?thesis by (simp add: needsCreate_def)
  next
    case (Some h)
    with assms(2) s have s': "s' = (p, tr @ [IsRunning h])"
      by (auto simp: needsCreate_def split: sum.splits)
    have "created E (p, tr @ [IsRunning h])"
      using assms(1) s by (intro created_grow) auto
    with s s' show ?thesis by simp
  qed
qed

lemma needsCreate_after_creation:
  assumes "reliable E" and "created E s" and "creations (snd s) \<noteq> []"
    and "needsCreate E s = (r, s')"
  shows "r = Inr False"
proof -
  obtain p tr where s: "s = (p, tr)" by (cases s)
  from assms(2,3) s obtain tr0 t h rest h' where
    *: "tr = tr0 @ Create t (CONTAINER_TIMEOUT E) # rest"
       "create E tr0 t (CONTAINER_TIMEOUT E) = Inr h"
       "container p = Some h'" "sandboxId h' = sandboxId h"
    unfolding created_def by auto
  from assms(1) *(2,4) have "isRunning E (tr0 @ Create t (CONTAINER_TIMEOUT E) # rest) h' = Inr True"
    unfolding reliable_def by blast
  with * assms(4) s show ?thesis by (simp add: needsCreate_def)
qed

lemma createCall_created:
  assumes "reliable E" and "creations (snd s) = []" and "createCall E s = (r, s')"
  shows "r = Inr () \<and> created E s' \<and> creations (snd s') = [template (type (fst s))]"
proof -
  obtain p tr where s: "s = (p, tr)" by (cases s)
  from assms(1) obtain h where h: "create E tr (template (type p)) (CONTAINER_TIMEOUT E) = Inr h"
    unfolding reliable_def by blast
  with assms(3) s have r: "r = Inr ()"
    and s': "s' = (p\<lparr>container := Some h, containerId := Some (sandboxId h)\<rparr>,
                  tr @ [Create (template (type p)) (CONTAINER_TIMEOUT E)])"
    by (simp_all add: createCall_def)
  have "created E s'"
    unfolding s' using assms(2) s h
    by (intro createdI [where ?tr0.0 = tr and rest = "[]" and h = h and h' = h]) simp_all
  with r s s' assms(2) show ?thesis by simp
qed

lemma persistId_created:
  assumes "created E s" and "persistId E s = (r, s')"
  shows "created E s' \<and> creations (snd s') = creations (snd s)"
proof -
  obtain p tr where s: "s = (p, tr)" by (cases s)
  with assms(2) have s': "s' = (p, tr @ [DbUpdate (projectId p) (containerId p)])"
    by (simp add: persistId_def)
  have "created E (p, tr @ [DbUpdate (projectId p) (containerId p)])"
    using assms(1) s by (intro created_grow) auto
  with s s' show ?thesis by simp
qed

lemma afterLock_created:
  assumes "created E s" and "afterLock s = (r, s')"
  shows "created E s' \<and> creations (snd s') = creations (snd s)"
proof -
  obtain p tr where s: "s = (p, tr)" by (cases s)
  with assms(2) obtain p' where s': "s' = (p', tr)" and "containerId p' = containerId p"
    and "container p' = container p"
    by (auto simp: afterLock_def Let_def split: option.splits if_splits)
  with assms(1) s show ?thesis using created_same_trace by auto
qed

subsection \<open>The lock invariant is kept by every step\<close>

lemma lockInvI:
  assumes "\<And>k. critical (pcs \<sigma> k) = (holder \<sigma> = Some k)"
    and "\<And>j. j \<in> set (waiting \<sigma>) \<Longrightarrow> pcs \<sigma> j = Queued"
    and "distinct (waiting \<sigma>)"
    and "\<And>k. pcs \<sigma> k = AtCreate \<Longrightarrow> creations (snd (shared \<sigma>)) = []"
    and "created E (shared \<sigma>)"
  shows "lockInv E \<sigma>"
  using assms unfolding lockInv_def by blast

lemma lockInvD:
  assumes "lockInv E \<sigma>"
  shows "critical (pcs \<sigma> k) = (holder \<sigma> = Some k)"
    and "j \<in> set (waiting \<sigma>) \<Longrightarrow> pcs \<sigma> j = Queued"
    and "distinct (waiting \<sigma>)"
    and "pcs \<sigma> k = AtCreate \<Longrightarrow> creations (snd (shared \<sigma>)) = []"
    and "created E (shared \<sigma>)"
  using assms unfolding lockInv_def by blast+

text \<open>A step of the lock holder inside the critical section: the shared session and the
  holder's own program counter change, nothing else.\<close>

lemma lockInv_holder_step:
  assumes I: "lockInv E \<sigma>" and c: "critical (pcs \<sigma> i)" and c': "critical c'"
    and s': "created E s'"
    and cr: "c' = AtCreate \<Longrightarrow> creations (snd s') = []"
  shows "lockInv E (\<sigma>\<lparr>shared := s', pcs := (pcs \<sigma>)(i := c')\<rparr>)"
proof (rule lockInvI)
  from lockInvD(1) [OF I] c have h: "holder \<sigma> = Some i" by simp
  fix k
  show "critical (pcs (\<sigma>\<lparr>shared := s', pcs := (pcs \<sigma>)(i := c')\<rparr>) k)
          = (holder (\<sigma>\<lparr>shared := s', pcs := (pcs \<sigma>)(i := c')\<rparr>) = Some k)"
    using lockInvD(1) [OF I, of k] h c' by auto
  show "creations (snd (shared (\<sigma>\<lparr>shared := s', pcs := (pcs \<sigma>)(i := c')\<rparr>))) = []"
    if "pcs (\<sigma>\<lparr>shared := s', pcs := (pcs \<sigma>)(i := c')\<rparr>) k = AtCreate"
  proof (cases "k = i")
    case True
    with that cr show ?thesis by simp
  next
    case False
    with that have "pcs \<sigma> k = AtCreate" by simp
    then have "critical (pcs \<sigma> k)" by simp
    with lockInvD(1) [OF I, of k] h False show ?thesis by simp
  qed
next
  fix j
  assume "j \<in> set (waiting (\<sigma>\<lparr>shared := s', pcs := (pcs \<sigma>)(i := c')\<rparr>))"
  then have j: "pcs \<sigma> j = Queued" using lockInvD(2) [OF I] by simp
  with c have "j \<noteq> i" by auto
  with j show "pcs (\<sigma>\<lparr>shared := s', pcs := (pcs \<sigma>)(i := c')\<rparr>) j = Queued" by simp
next
  show "distinct (waiting (\<sigma>\<lparr>shared := s', pcs := (pcs \<sigma>)(i := c')\<rparr>))"
    using lockInvD(3) [OF I] by simp
  show "created E (shared (\<sigma>\<lparr>shared := s', pcs := (pcs \<sigma>)(i := c')\<rparr>))"
    using s' by simp
qed

lemma lockInv_request:
  assumes I: "lockInv E \<sigma>" and p: "pcs \<sigma> i = Start"
  shows "lockInv E (request i \<sigma>)"
proof (cases "holder \<sigma>")
  case None
  have req: "request i \<sigma> = \<sigma>\<lparr>holder := Some i, pcs := (pcs \<sigma>)(i := AtConnect)\<rparr>"
    using None by (simp add: request_def)
  show ?thesis unfolding req
  proof (rule lockInvI)
    fix k
    show "critical (pcs (\<sigma>\<lparr>holder := Some i, pcs := (pcs \<sigma>)(i := AtConnect)\<rparr>) k)
          = (holder (\<sigma>\<lparr>holder := Some i, pcs := (pcs \<sigma>)(i := AtConnect)\<rparr>) = Some k)"
      using lockInvD(1) [OF I, of k] None by auto
    show "creations (snd (shared (\<sigma>\<lparr>holder := Some i, pcs := (pcs \<sigma>)(i := AtConnect)\<rparr>))) = []"
      if "pcs (\<sigma>\<lparr>holder := Some i, pcs := (pcs \<sigma>)(i := AtConnect)\<rparr>) k = AtCreate"
      using that lockInvD(4) [OF I, of k] by (cases "k = i") simp_all
  next
    fix j
    assume "j \<in> set (waiting (\<sigma>\<lparr>holder := Some i, pcs := (pcs \<sigma>)(i := AtConnect)\<rparr>))"
    then have j: "pcs \<sigma> j = Queued" using lockInvD(2) [OF I] by simp
    with p have "j \<noteq> i" by auto
    with j show "pcs (\<sigma>\<lparr>holder := Some i, pcs := (pcs \<sigma>)(i := AtConnect)\<rparr>) j = Queued"
      by simp
  next
    show "distinct (waiting (\<sigma>\<lparr>holder := Some i, pcs := (pcs \<sigma>)(i := AtConnect)\<rparr>))"
      using lockInvD(3) [OF I] by simp
    show "created E (shared (\<sigma>\<lparr>holder := Some i, pcs := (pcs \<sigma>)(i := AtConnect)\<rparr>))"
      using lockInvD(5) [OF I] by simp
  qed
next
  case (Some h)
  have req: "request i \<sigma> = \<sigma>\<lparr>waiting := waiting \<sigma> @ [i], pcs := (pcs \<sigma>)(i := Queued)\<rparr>"
    using Some by (simp add: request_def)
  have notin: "i \<notin> set (waiting \<sigma>)" using lockInvD(2) [OF I, of i] p by auto
  show ?thesis unfolding req
  proof (rule lockInvI)
    fix k
    show "critical (pcs (\<sigma>\<lparr>waiting := waiting \<sigma> @ [i], pcs := (pcs \<sigma>)(i := Queued)\<rparr>) k)
          = (holder (\<sigma>\<lparr>waiting := waiting \<sigma> @ [i], pcs := (pcs \<sigma>)(i := Queued)\<rparr>) = Some k)"
      using lockInvD(1) [OF I, of k] lockInvD(1) [OF I, of i] p by auto
    show "creations (snd (shared (\<sigma>\<lparr>waiting := waiting \<sigma> @ [i],
              pcs := (pcs \<sigma>)(i := Queued)\<rparr>))) = []"
      if "pcs (\<sigma>\<lparr>waiting := waiting \<sigma> @ [i], pcs := (pcs \<sigma>)(i := Queued)\<rparr>) k = AtCreate"
      using that lockInvD(4) [OF I, of k] by (cases "k = i") simp_all
  next
    fix j
    assume "j \<in> set (waiting (\<sigma>\<lparr>waiting := waiting \<sigma> @ [i], pcs := (pcs \<sigma>)(i := Queued)\<rparr>))"
    then show "pcs (\<sigma>\<lparr>waiting := waiting \<sigma> @ [i], pcs := (pcs \<sigma>)(i := Queued)\<rparr>) j = Queued"
      using lockInvD(2) [OF I, of j] by auto
  next
    show "distinct (waiting (\<sigma>\<lparr>waiting := waiting \<sigma> @ [i], pcs := (pcs \<sigma>)(i := Queued)\<rparr>))"
      using lockInvD(3) [OF I] notin by simp
    show "created E (shared (\<sigma>\<lparr>waiting := waiting \<sigma> @ [i], pcs := (pcs \<sigma>)(i := Queued)\<rparr>))"
      using lockInvD(5) [OF I] by simp
  qed
qed

lemma lockInv_release:
  assumes I: "lockInv E \<sigma>" and p: "pcs \<sigma> i = Releasing r"
  shows "lockInv E (release i r \<sigma>)"
proof -
  define after where "after = (case r of Inl e \<Rightarrow> Done (Inl e) | Inr u \<Rightarrow> AfterLock)"
  have na: "\<not> critical after" "after \<noteq> AtCreate" "after \<noteq> Queued"
    by (simp_all add: after_def split: sum.splits)
  from lockInvD(1) [OF I, of i] p have h: "holder \<sigma> = Some i" by simp
  show ?thesis
  proof (cases "waiting \<sigma>")
    case Nil
    have rel: "release i r \<sigma> = \<sigma>\<lparr>holder := None, pcs := (pcs \<sigma>)(i := after)\<rparr>"
      using Nil by (simp add: release_def after_def)
    show ?thesis unfolding rel
    proof (rule lockInvI)
      fix k
      show "critical (pcs (\<sigma>\<lparr>holder := None, pcs := (pcs \<sigma>)(i := after)\<rparr>) k)
          = (holder (\<sigma>\<lparr>holder := None, pcs := (pcs \<sigma>)(i := after)\<rparr>) = Some k)"
        using lockInvD(1) [OF I, of k] h na by auto
      show "creations (snd (shared (\<sigma>\<lparr>holder := None, pcs := (pcs \<sigma>)(i := after)\<rparr>))) = []"
        if "pcs (\<sigma>\<lparr>holder := None, pcs := (pcs \<sigma>)(i := after)\<rparr>) k = AtCreate"
        using that lockInvD(4) [OF I, of k] na by (cases "k = i") simp_all
    next
      fix j
      assume "j \<in> set (waiting (\<sigma>\<lparr>holder := None, pcs := (pcs \<sigma>)(i := after)\<rparr>))"
      then show "pcs (\<sigma>\<lparr>holder := None, pcs := (pcs \<sigma>)(i := after)\<rparr>) j = Queued"
        using Nil by simp
    next
      show "distinct (waiting (\<sigma>\<lparr>holder := None, pcs := (pcs \<sigma>)(i := after)\<rparr>))"
        using lockInvD(3) [OF I] by simp
      show "created E (shared (\<sigma>\<lparr>holder := None, pcs := (pcs \<sigma>)(i := after)\<rparr>))"
        using lockInvD(5) [OF I] by simp
    qed
  next
    case (Cons j q)
    let ?\<sigma>' = "\<sigma>\<lparr>holder := Some j, waiting := q, pcs := (pcs \<sigma>)(i := after, j := AtConnect)\<rparr>"
    have rel: "release i r \<sigma> = ?\<sigma>'"
      using Cons by (simp add: release_def after_def)
    from lockInvD(2) [OF I, of j] Cons have pj: "pcs \<sigma> j = Queued" by simp
    with p have ji: "j \<noteq> i" by auto
    from lockInvD(3) [OF I] Cons have jq: "j \<notin> set q" by simp
    show ?thesis unfolding rel
    proof (rule lockInvI)
      fix k
      show "critical (pcs ?\<sigma>' k) = (holder ?\<sigma>' = Some k)"
        using lockInvD(1) [OF I, of k] h na ji by auto
      show "creations (snd (shared ?\<sigma>')) = []" if "pcs ?\<sigma>' k = AtCreate"
      proof -
        from that na have "k \<noteq> j" "k \<noteq> i" by (auto split: if_splits)
        with that have "pcs \<sigma> k = AtCreate" by simp
        with lockInvD(4) [OF I, of k] show ?thesis by simp
      qed
    next
      fix j'
      assume "j' \<in> set (waiting ?\<sigma>')"
      then have in_q: "j' \<in> set q" by simp
      with Cons lockInvD(2) [OF I, of j'] have q: "pcs \<sigma> j' = Queued" by simp
      with p have "j' \<noteq> i" by auto
      moreover from in_q jq have "j' \<noteq> j" by auto
      ultimately show "pcs ?\<sigma>' j' = Queued" using q by simp
    next
      show "distinct (waiting ?\<sigma>')" using lockInvD(3) [OF I] Cons by simp
      show "created E (shared ?\<sigma>')" using lockInvD(5) [OF I] by simp
    qed
  qed
qed

lemma lockInv_afterLock:
  assumes I: "lockInv E \<sigma>" and p: "pcs \<sigma> i = AfterLock" and a: "afterLock (shared \<sigma>) = (r, s')"
  shows "lockInv E (\<sigma>\<lparr>shared := s', pcs := (pcs \<sigma>)(i := Done r)\<rparr>)"
proof (rule lockInvI)
  from afterLock_created [OF lockInvD(5) [OF I] a]
  have cr: "created E s'" and same: "creations (snd s') = creations (snd (shared \<sigma>))" by simp_all
  fix k
  show "critical (pcs (\<sigma>\<lparr>shared := s', pcs := (pcs \<sigma>)(i := Done r)\<rparr>) k)
          = (holder (\<sigma>\<lparr>shared := s', pcs := (pcs \<sigma>)(i := Done r)\<rparr>) = Some k)"
    using lockInvD(1) [OF I, of k] lockInvD(1) [OF I, of i] p by auto
  show "creations (snd (shared (\<sigma>\<lparr>shared := s', pcs := (pcs \<sigma>)(i := Done r)\<rparr>))) = []"
    if "pcs (\<sigma>\<lparr>shared := s', pcs := (pcs \<sigma>)(i := Done r)\<rparr>) k = AtCreate"
    using that lockInvD(4) [OF I, of k] same by (cases "k = i") simp_all
  show "created E (shared (\<sigma>\<lparr>shared := s', pcs := (pcs \<sigma>)(i := Done r)\<rparr>))"
    using cr by simp
next
  fix j
  assume "j \<in> set (waiting (\<sigma>\<lparr>shared := s', pcs := (pcs \<sigma>)(i := Done r)\<rparr>))"
  then have j: "pcs \<sigma> j = Queued" using lockInvD(2) [OF I] by simp
  with p have "j \<noteq> i" by auto
  with j show "pcs (\<sigma>\<lparr>shared := s', pcs := (pcs \<sigma>)(i := Done r)\<rparr>) j = Queued" by simp
next
  show "distinct (waiting (\<sigma>\<lparr>shared := s', pcs := (pcs \<sigma>)(i := Done r)\<rparr>))"
    using lockInvD(3) [OF I] by simp
qed

lemma lockInv_step:
  assumes R: "reliable E" and I: "lockInv E \<sigma>"
  shows "lockInv E (step E i \<sigma>)"
proof (cases "pcs \<sigma> i")
  case Start
  with lockInv_request [OF I] show ?thesis by (simp add: step_def)
next
  case Queued
  with I show ?thesis by (simp add: step_def)
next
  case AtConnect
  obtain r s' where c: "connectStep E (shared \<sigma>) = (r, s')"
    by (cases "connectStep E (shared \<sigma>)") auto
  from connectStep_created [OF R lockInvD(5) [OF I] c] have cr: "created E s'" by simp
  have "lockInv E (\<sigma>\<lparr>shared := s', pcs := (pcs \<sigma>)(i := c')\<rparr>)"
    if "critical c'" "c' \<noteq> AtCreate" for c'
    using that AtConnect cr by (intro lockInv_holder_step [OF I]) simp_all
  with AtConnect c show ?thesis by (cases r) (simp_all add: step_def)
next
  case AtCheck
  obtain r s' where c: "needsCreate E (shared \<sigma>) = (r, s')"
    by (cases "needsCreate E (shared \<sigma>)") auto
  from needsCreate_created [OF lockInvD(5) [OF I] c]
  have cr: "created E s'" and same: "creations (snd s') = creations (snd (shared \<sigma>))"
    by simp_all
  have *: "lockInv E (\<sigma>\<lparr>shared := s', pcs := (pcs \<sigma>)(i := c')\<rparr>)"
    if "critical c'" "c' = AtCreate \<Longrightarrow> creations (snd s') = []" for c'
    using that AtCheck cr by (intro lockInv_holder_step [OF I]) simp_all
  have rel: "lockInv E (\<sigma>\<lparr>shared := s', pcs := (pcs \<sigma>)(i := Releasing x)\<rparr>)" for x
    using * [of "Releasing x"] by simp
  have atc: "lockInv E (\<sigma>\<lparr>shared := s', pcs := (pcs \<sigma>)(i := AtCreate)\<rparr>)"
    if "creations (snd s') = []"
    using * [of AtCreate] that by simp
  show ?thesis
  proof (cases r)
    case (Inl e)
    with AtCheck c rel show ?thesis by (simp add: step_def)
  next
    case (Inr b)
    show ?thesis
    proof (cases b)
      case True
      have "creations (snd (shared \<sigma>)) = []"
      proof (rule ccontr)
        assume "creations (snd (shared \<sigma>)) \<noteq> []"
        from needsCreate_after_creation [OF R lockInvD(5) [OF I] this c] Inr True
        show False by simp
      qed
      with same have "creations (snd s') = []" by simp
      with AtCheck c Inr True atc show ?thesis by (simp add: step_def)
    next
      case False
      with AtCheck c Inr rel show ?thesis by (simp add: step_def)
    qed
  qed
next
  case AtCreate
  obtain r s' where c: "createCall E (shared \<sigma>) = (r, s')"
    by (cases "createCall E (shared \<sigma>)") auto
  from lockInvD(4) [OF I AtCreate] have "creations (snd (shared \<sigma>)) = []" .
  from createCall_created [OF R this c] have r: "r = Inr ()" and cr: "created E s'" by simp_all
  have "lockInv E (\<sigma>\<lparr>shared := s', pcs := (pcs \<sigma>)(i := AtDbUpdate)\<rparr>)"
    using AtCreate cr by (intro lockInv_holder_step [OF I]) simp_all
  with AtCreate c r show ?thesis by (simp add: step_def)
next
  case AtDbUpdate
  obtain r s' where c: "persistId E (shared \<sigma>) = (r, s')"
    by (cases "persistId E (shared \<sigma>)") auto
  from persistId_created [OF lockInvD(5) [OF I] c] have cr: "created E s'" by simp
  have "lockInv E (\<sigma>\<lparr>shared := s', pcs := (pcs \<sigma>)(i := Releasing r)\<rparr>)"
    using AtDbUpdate cr by (intro lockInv_holder_step [OF I]) simp_all
  with AtDbUpdate c show ?thesis by (simp add: step_def)
next
  case (Releasing r)
  with lockInv_release [OF I] show ?thesis by (simp add: step_def)
next
  case AfterLock
  obtain r s' where c: "afterLock (shared \<sigma>) = (r, s')"
    by (cases "afterLock (shared \<sigma>)") auto
  with lockInv_afterLock [OF I AfterLock c] AfterLock show ?thesis by (simp add: step_def)
next
  case (Done r)
  with I show ?thesis by (simp add: step_def)
qed

lemma lockInv_run: "reliable E \<Longrightarrow> lockInv E \<sigma> \<Longrightarrow> lockInv E (run E schedule \<sigma>)"
  by (induction schedule arbitrary: \<sigma>) (simp_all add: lockInv_step)

lemma lockInv_initial: "lockInv E (initial (p, []))"
  by (simp add: lockInv_def initial_def created_def)

lemma created_at_most_one: "created E s \<Longrightarrow> length (creations (snd s)) \<le> 1"
  by (auto simp: created_def creations_append)

subsection \<open>Progress of a session that starts without a sandbox\<close>

lemma passedD:
  "progressInv ty \<sigma> \<Longrightarrow> passed (pcs \<sigma> i) \<Longrightarrow> container (fst (shared \<sigma>)) \<noteq> None"
  unfolding progressInv_def by blast

lemma progressInvI:
  assumes "type (fst s') = ty"
    and "creations (snd s') = [] \<Longrightarrow> container (fst s') = None \<and> \<not> truthyString (containerId (fst s'))"
    and "set (creations (snd s')) \<subseteq> {template ty}"
    and "\<And>k. passed (pcs' k) \<Longrightarrow> container (fst s') \<noteq> None"
  shows "progressInv ty (\<sigma>\<lparr>shared := s', pcs := pcs'\<rparr>)"
  using assms unfolding progressInv_def by simp

lemma progressInv_shared_step:
  assumes J: "progressInv ty \<sigma>"
    and ty: "type (fst s') = type (fst (shared \<sigma>))"
    and fresh: "creations (snd s') = [] \<Longrightarrow>
        creations (snd (shared \<sigma>)) = [] \<and> container (fst s') = container (fst (shared \<sigma>))
        \<and> containerId (fst s') = containerId (fst (shared \<sigma>))"
    and cr: "set (creations (snd s')) \<subseteq> set (creations (snd (shared \<sigma>))) \<union> {template ty}"
    and mono: "container (fst (shared \<sigma>)) \<noteq> None \<Longrightarrow> container (fst s') \<noteq> None"
    and c': "passed c' \<Longrightarrow> container (fst s') \<noteq> None"
  shows "progressInv ty (\<sigma>\<lparr>shared := s', pcs := (pcs \<sigma>)(i := c')\<rparr>)"
proof (rule progressInvI)
  show "type (fst s') = ty" using J ty unfolding progressInv_def by simp
  show "container (fst s') = None \<and> \<not> truthyString (containerId (fst s'))"
    if "creations (snd s') = []"
    using fresh [OF that] J unfolding progressInv_def by simp
  show "set (creations (snd s')) \<subseteq> {template ty}"
    using cr J unfolding progressInv_def by auto
  show "container (fst s') \<noteq> None" if "passed (((pcs \<sigma>)(i := c')) k)" for k
  proof (cases "k = i")
    case True
    with that c' show ?thesis by simp
  next
    case False
    with that have "passed (pcs \<sigma> k)" by simp
    from mono [OF passedD [OF J this]] show ?thesis .
  qed
qed

lemma connectStep_facts:
  assumes "connectStep E s = (r, s')"
  shows "type (fst s') = type (fst s)" and "creations (snd s') = creations (snd s)"
    and "containerId (fst s') = containerId (fst s)"
    and "container (fst s) \<noteq> None \<Longrightarrow> container (fst s') \<noteq> None"
    and "\<not> truthyString (containerId (fst s)) \<Longrightarrow> container (fst s') = container (fst s)"
  using assms
  by (auto simp: connectStep_def truthyString_def
      split: prod.splits option.splits sum.splits if_splits)

lemma needsCreate_facts:
  assumes "needsCreate E s = (r, s')"
  shows "fst s' = fst s" and "creations (snd s') = creations (snd s)"
    and "r = Inr False \<Longrightarrow> container (fst s) \<noteq> None"
  using assms
  by (auto simp: needsCreate_def split: prod.splits option.splits sum.splits)

lemma createCall_facts:
  assumes "createCall E s = (r, s')"
  shows "type (fst s') = type (fst s)"
    and "creations (snd s') = creations (snd s) @ [template (type (fst s))]"
    and "container (fst s) \<noteq> None \<Longrightarrow> container (fst s') \<noteq> None"
    and "r = Inr u \<Longrightarrow> container (fst s') \<noteq> None"
  using assms
  by (auto simp: createCall_def split: prod.splits sum.splits)

lemma persistId_facts:
  assumes "persistId E s = (r, s')"
  shows "fst s' = fst s" and "creations (snd s') = creations (snd s)"
  using assms by (auto simp: persistId_def split: prod.splits)

lemma afterLock_facts:
  assumes "afterLock s = (r, s')"
  shows "type (fst s') = type (fst s)" and "snd s' = snd s"
    and "container (fst s') = container (fst s)" and "containerId (fst s') = containerId (fst s)"
    and "r = Inr u \<Longrightarrow> container (fst s') \<noteq> None"
  using assms
  by (auto simp: afterLock_def Let_def split: prod.splits option.splits if_splits)

lemma progressInv_pcs_only:
  assumes J: "progressInv ty \<sigma>" and "\<And>k. passed (pcs' k) \<Longrightarrow> \<exists>k'. passed (pcs \<sigma> k')"
    and "shared \<sigma>' = shared \<sigma>" and "pcs \<sigma>' = pcs'"
  shows "progressInv ty \<sigma>'"
proof -
  have "container (fst (shared \<sigma>)) \<noteq> None" if "passed (pcs' k)" for k
  proof -
    from assms(2) [OF that] obtain k' where "passed (pcs \<sigma> k')" ..
    with J show ?thesis unfolding progressInv_def by blast
  qed
  with J assms(3,4) show ?thesis unfolding progressInv_def by simp
qed

lemma progressInv_step_Start:
  assumes J: "progressInv ty \<sigma>" and Start: "pcs \<sigma> i = Start"
  shows "progressInv ty (step E i \<sigma>)"
proof (rule progressInv_pcs_only [OF J])
  show "shared (step E i \<sigma>) = shared \<sigma>"
    using Start by (simp add: step_def request_def split: option.splits)
  show "pcs (step E i \<sigma>) = pcs (step E i \<sigma>)" ..
  show "\<exists>k'. passed (pcs \<sigma> k')" if "passed (pcs (step E i \<sigma>) k)" for k
  proof (cases "k = i")
    case True
    with that Start show ?thesis
      by (simp add: step_def request_def split: option.splits)
  next
    case False
    with that Start have "passed (pcs \<sigma> k)"
      by (simp add: step_def request_def split: option.splits)
    then show ?thesis ..
  qed
qed

lemma progressInv_step_AtConnect:
  assumes J: "progressInv ty \<sigma>" and AtConnect: "pcs \<sigma> i = AtConnect"
  shows "progressInv ty (step E i \<sigma>)"
proof -
  obtain r s' where c: "connectStep E (shared \<sigma>) = (r, s')"
    by (cases "connectStep E (shared \<sigma>)") auto
  note f = connectStep_facts [OF c]
  have *: "progressInv ty (\<sigma>\<lparr>shared := s', pcs := (pcs \<sigma>)(i := c')\<rparr>)" if "\<not> passed c'" for c'
  proof (rule progressInv_shared_step [OF J])
    show "type (fst s') = type (fst (shared \<sigma>))" by (rule f(1))
    show "creations (snd (shared \<sigma>)) = [] \<and> container (fst s') = container (fst (shared \<sigma>))
        \<and> containerId (fst s') = containerId (fst (shared \<sigma>))" if e: "creations (snd s') = []"
    proof -
      from e f(2) have e': "creations (snd (shared \<sigma>)) = []" by simp
      with J have "\<not> truthyString (containerId (fst (shared \<sigma>)))" unfolding progressInv_def by blast
      from f(5) [OF this] e' f(3) show ?thesis by simp
    qed
    show "set (creations (snd s')) \<subseteq> set (creations (snd (shared \<sigma>))) \<union> {template ty}"
      unfolding f(2) by auto
    show "container (fst (shared \<sigma>)) \<noteq> None \<Longrightarrow> container (fst s') \<noteq> None" by (rule f(4))
    show "passed c' \<Longrightarrow> container (fst s') \<noteq> None" using that by simp
  qed
  show ?thesis
  proof (cases r)
    case (Inl e)
    with AtConnect c * [of "Releasing (Inl e)"] show ?thesis by (simp add: step_def)
  next
    case (Inr u)
    with AtConnect c * [of AtCheck] show ?thesis by (simp add: step_def)
  qed
qed

lemma progressInv_step_AtCheck:
  assumes J: "progressInv ty \<sigma>" and AtCheck: "pcs \<sigma> i = AtCheck"
  shows "progressInv ty (step E i \<sigma>)"
proof -
  obtain r s' where c: "needsCreate E (shared \<sigma>) = (r, s')"
    by (cases "needsCreate E (shared \<sigma>)") auto
  note f = needsCreate_facts [OF c]
  have *: "progressInv ty (\<sigma>\<lparr>shared := s', pcs := (pcs \<sigma>)(i := c')\<rparr>)"
    if "passed c' \<Longrightarrow> r = Inr False" for c'
  proof (rule progressInv_shared_step [OF J])
    show "type (fst s') = type (fst (shared \<sigma>))" using f(1) by simp
    show "creations (snd (shared \<sigma>)) = [] \<and> container (fst s') = container (fst (shared \<sigma>))
        \<and> containerId (fst s') = containerId (fst (shared \<sigma>))" if "creations (snd s') = []"
      using that f(1,2) by simp
    show "set (creations (snd s')) \<subseteq> set (creations (snd (shared \<sigma>))) \<union> {template ty}"
      unfolding f(2) by auto
    show "container (fst (shared \<sigma>)) \<noteq> None \<Longrightarrow> container (fst s') \<noteq> None"
      using f(1) by simp
    show "passed c' \<Longrightarrow> container (fst s') \<noteq> None"
      using that f(1) f(3) by simp
  qed
  show ?thesis
  proof (cases r)
    case (Inl e)
    with AtCheck c * [of "Releasing (Inl e)"] show ?thesis by (simp add: step_def)
  next
    case (Inr b)
    show ?thesis
    proof (cases b)
      case True
      with Inr AtCheck c * [of AtCreate] show ?thesis by (simp add: step_def)
    next
      case False
      with Inr AtCheck c * [of "Releasing (Inr ())"] show ?thesis by (simp add: step_def)
    qed
  qed
qed

lemma progressInv_step_AtCreate:
  assumes J: "progressInv ty \<sigma>" and AtCreate: "pcs \<sigma> i = AtCreate"
  shows "progressInv ty (step E i \<sigma>)"
proof -
  obtain r s' where c: "createCall E (shared \<sigma>) = (r, s')"
    by (cases "createCall E (shared \<sigma>)") auto
  note f = createCall_facts [OF c]
  have ty: "type (fst (shared \<sigma>)) = ty" using J unfolding progressInv_def by simp
  have *: "progressInv ty (\<sigma>\<lparr>shared := s', pcs := (pcs \<sigma>)(i := c')\<rparr>)"
    if "passed c' \<Longrightarrow> container (fst s') \<noteq> None" for c'
  proof (rule progressInv_shared_step [OF J])
    show "type (fst s') = type (fst (shared \<sigma>))" by (rule f(1))
    show "creations (snd (shared \<sigma>)) = [] \<and> container (fst s') = container (fst (shared \<sigma>))
        \<and> containerId (fst s') = containerId (fst (shared \<sigma>))" if "creations (snd s') = []"
      using that f(2) by simp
    show "set (creations (snd s')) \<subseteq> set (creations (snd (shared \<sigma>))) \<union> {template ty}"
      unfolding f(2) ty by auto
    show "container (fst (shared \<sigma>)) \<noteq> None \<Longrightarrow> container (fst s') \<noteq> None" by (rule f(3))
    show "passed c' \<Longrightarrow> container (fst s') \<noteq> None" by (rule that)
  qed
  show ?thesis
  proof (cases r)
    case (Inl e)
    with AtCreate c * [of "Releasing (Inl e)"] show ?thesis by (simp add: step_def)
  next
    case (Inr u)
    from f(4) [OF Inr] have "container (fst s') \<noteq> None" .
    with Inr AtCreate c * [of AtDbUpdate] show ?thesis by (simp add: step_def)
  qed
qed

lemma progressInv_step_AtDbUpdate:
  assumes J: "progressInv ty \<sigma>" and AtDbUpdate: "pcs \<sigma> i = AtDbUpdate"
  shows "progressInv ty (step E i \<sigma>)"
proof -
  obtain r s' where c: "persistId E (shared \<sigma>) = (r, s')"
    by (cases "persistId E (shared \<sigma>)") auto
  note f = persistId_facts [OF c]
  from AtDbUpdate have "passed (pcs \<sigma> i)" by simp
  note h = passedD [OF J this]
  have "progressInv ty (\<sigma>\<lparr>shared := s', pcs := (pcs \<sigma>)(i := Releasing r)\<rparr>)"
  proof (rule progressInv_shared_step [OF J])
    show "type (fst s') = type (fst (shared \<sigma>))" using f(1) by simp
    show "creations (snd (shared \<sigma>)) = [] \<and> container (fst s') = container (fst (shared \<sigma>))
        \<and> containerId (fst s') = containerId (fst (shared \<sigma>))" if "creations (snd s') = []"
      using that f(1,2) by simp
    show "set (creations (snd s')) \<subseteq> set (creations (snd (shared \<sigma>))) \<union> {template ty}"
      unfolding f(2) by auto
    show "container (fst (shared \<sigma>)) \<noteq> None \<Longrightarrow> container (fst s') \<noteq> None"
      using f(1) by simp
    show "passed (Releasing r) \<Longrightarrow> container (fst s') \<noteq> None"
      using h f(1) by simp
  qed
  with AtDbUpdate c show ?thesis by (simp add: step_def)
qed

lemma progressInv_step_Releasing:
  assumes J: "progressInv ty \<sigma>" and Releasing: "pcs \<sigma> i = Releasing r"
  shows "progressInv ty (step E i \<sigma>)"
proof (rule progressInv_pcs_only [OF J])
  show "shared (step E i \<sigma>) = shared \<sigma>"
    using Releasing by (simp add: step_def release_def Let_def split: list.splits)
  show "pcs (step E i \<sigma>) = pcs (step E i \<sigma>)" ..
  show "\<exists>k'. passed (pcs \<sigma> k')" if p: "passed (pcs (step E i \<sigma>) k)" for k
  proof (cases "waiting \<sigma>")
    case Nil
    with Releasing have st: "pcs (step E i \<sigma>) =
        (pcs \<sigma>)(i := (case r of Inl e \<Rightarrow> Done (Inl e) | Inr u \<Rightarrow> AfterLock))"
      by (simp add: step_def release_def)
    show ?thesis
    proof (cases "k = i")
      case True
      with p st have "passed (pcs \<sigma> i)" using Releasing by (cases r) simp_all
      then show ?thesis ..
    next
      case False
      with p st have "passed (pcs \<sigma> k)" by simp
      then show ?thesis ..
    qed
  next
    case (Cons j q)
    with Releasing have st: "pcs (step E i \<sigma>) =
        (pcs \<sigma>)(i := (case r of Inl e \<Rightarrow> Done (Inl e) | Inr u \<Rightarrow> AfterLock), j := AtConnect)"
      by (simp add: step_def release_def)
    show ?thesis
    proof (cases "k = j")
      case True
      with p st show ?thesis by simp
    next
      case kj: False
      show ?thesis
      proof (cases "k = i")
        case True
        with p st kj have "passed (pcs \<sigma> i)" using Releasing by (cases r) simp_all
        then show ?thesis ..
      next
        case False
        with p st kj have "passed (pcs \<sigma> k)" by simp
        then show ?thesis ..
      qed
    qed
  qed
qed

lemma progressInv_step_AfterLock:
  assumes J: "progressInv ty \<sigma>" and AfterLock: "pcs \<sigma> i = AfterLock"
  shows "progressInv ty (step E i \<sigma>)"
proof -
  obtain r s' where c: "afterLock (shared \<sigma>) = (r, s')"
    by (cases "afterLock (shared \<sigma>)") auto
  note f = afterLock_facts [OF c]
  have "progressInv ty (\<sigma>\<lparr>shared := s', pcs := (pcs \<sigma>)(i := Done r)\<rparr>)"
  proof (rule progressInv_shared_step [OF J])
    show "type (fst s') = type (fst (shared \<sigma>))" by (rule f(1))
    show "creations (snd (shared \<sigma>)) = [] \<and> container (fst s') = container (fst (shared \<sigma>))
        \<and> containerId (fst s') = containerId (fst (shared \<sigma>))" if "creations (snd s') = []"
      using that f(2,3,4) by simp
    show "set (creations (snd s')) \<subseteq> set (creations (snd (shared \<sigma>))) \<union> {template ty}"
      unfolding f(2) by auto
    show "container (fst (shared \<sigma>)) \<noteq> None \<Longrightarrow> container (fst s') \<noteq> None"
      using f(3) by simp
    show "container (fst s') \<noteq> None" if "passed (Done r)"
      using that f(5) by (cases r) auto
  qed
  with AfterLock c show ?thesis by (simp add: step_def)
qed

lemma progressInv_step:
  assumes J: "progressInv ty \<sigma>"
  shows "progressInv ty (step E i \<sigma>)"
proof (cases "pcs \<sigma> i")
  case Start
  with J show ?thesis by (rule progressInv_step_Start)
next
  case Queued
  with J show ?thesis by (simp add: step_def)
next
  case AtConnect
  with J show ?thesis by (rule progressInv_step_AtConnect)
next
  case AtCheck
  with J show ?thesis by (rule progressInv_step_AtCheck)
next
  case AtCreate
  with J show ?thesis by (rule progressInv_step_AtCreate)
next
  case AtDbUpdate
  with J show ?thesis by (rule progressInv_step_AtDbUpdate)
next
  case (Releasing r)
  with J show ?thesis by (rule progressInv_step_Releasing)
next
  case AfterLock
  with J show ?thesis by (rule progressInv_step_AfterLock)
next
  case (Done r)
  with J show ?thesis by (simp add: step_def)
qed

lemma progressInv_run: "progressInv ty \<sigma> \<Longrightarrow> progressInv ty (run E schedule \<sigma>)"
  by (induction schedule arbitrary: \<sigma>) (simp_all add: progressInv_step)

lemma progressInv_initial:
  "container p = None \<Longrightarrow> \<not> truthyString (containerId p) \<Longrightarrow> progressInv (type p) (initial (p, []))"
  by (simp add: progressInv_def initial_def)

lemma creations_singleton:
  assumes "length xs \<le> 1" and "xs \<noteq> []" and "set xs \<subseteq> {t}"
  shows "xs = [t]"
  using assms by (cases xs) auto

subsection \<open>Mutual exclusion, whatever the sandbox service does\<close>

lemma mutexInv_pc:
  assumes I: "mutexInv \<sigma>" and c: "critical (pcs \<sigma> i)" and c': "critical c'"
  shows "mutexInv (\<sigma>\<lparr>shared := s, pcs := (pcs \<sigma>)(i := c')\<rparr>)"
proof -
  from I c have h: "holder \<sigma> = Some i" unfolding mutexInv_def by simp
  have nq: "i \<notin> set (waiting \<sigma>)"
  proof
    assume "i \<in> set (waiting \<sigma>)"
    with I have "pcs \<sigma> i = Queued" unfolding mutexInv_def by blast
    with c show False by simp
  qed
  show ?thesis using I h nq c' unfolding mutexInv_def by auto
qed

lemma mutexInv_request:
  assumes I: "mutexInv \<sigma>" and s: "pcs \<sigma> i = Start"
  shows "mutexInv (request i \<sigma>)"
proof -
  from s have "\<not> critical (pcs \<sigma> i)" by simp
  with I have nh: "holder \<sigma> \<noteq> Some i" unfolding mutexInv_def by blast
  from I s have nq: "i \<notin> set (waiting \<sigma>)" unfolding mutexInv_def by auto
  show ?thesis
  proof (cases "holder \<sigma>")
    case None
    with I nq show ?thesis unfolding mutexInv_def request_def by auto
  next
    case (Some j)
    with I nq nh show ?thesis unfolding mutexInv_def request_def by auto
  qed
qed

lemma mutexInv_release:
  assumes I: "mutexInv \<sigma>" and s: "pcs \<sigma> i = Releasing r"
  shows "mutexInv (release i r \<sigma>)"
proof -
  from s have "critical (pcs \<sigma> i)" by simp
  with I have h: "holder \<sigma> = Some i" unfolding mutexInv_def by blast
  from I s have nq: "i \<notin> set (waiting \<sigma>)" unfolding mutexInv_def by auto
  have na: "\<not> critical (case r of Inl e \<Rightarrow> Done (Inl e) | Inr u \<Rightarrow> AfterLock)"
    by (cases r) simp_all
  show ?thesis
  proof (cases "waiting \<sigma>")
    case Nil
    with I h na show ?thesis unfolding mutexInv_def release_def Let_def by auto
  next
    case (Cons j q)
    with I have jq: "pcs \<sigma> j = Queued" "j \<notin> set q" "distinct q" "\<forall>k \<in> set q. pcs \<sigma> k = Queued"
      unfolding mutexInv_def by auto
    from jq s have ji: "j \<noteq> i" by auto
    from Cons nq have iq: "i \<notin> set q" by simp
    show ?thesis using I h na Cons jq ji iq unfolding mutexInv_def release_def Let_def by auto
  qed
qed

lemma mutexInv_done:
  assumes I: "mutexInv \<sigma>" and s: "pcs \<sigma> i = AfterLock"
  shows "mutexInv (\<sigma>\<lparr>shared := s', pcs := (pcs \<sigma>)(i := Done r)\<rparr>)"
proof -
  from s have "\<not> critical (pcs \<sigma> i)" by simp
  with I have nh: "holder \<sigma> \<noteq> Some i" unfolding mutexInv_def by blast
  from I s have nq: "i \<notin> set (waiting \<sigma>)" unfolding mutexInv_def by auto
  show ?thesis using I nh nq unfolding mutexInv_def by auto
qed

lemma mutexInv_step: "mutexInv \<sigma> \<Longrightarrow> mutexInv (step E i \<sigma>)"
proof -
  assume I: "mutexInv \<sigma>"
  show ?thesis
  proof (cases "pcs \<sigma> i")
    case Start
    with I show ?thesis by (simp add: step_def mutexInv_request)
  next
    case Queued
    with I show ?thesis by (simp add: step_def)
  next
    case AtConnect
    then have c: "critical (pcs \<sigma> i)" by simp
    show ?thesis using AtConnect mutexInv_pc [OF I c]
      by (simp add: step_def split: prod.splits sum.splits)
  next
    case AtCheck
    then have c: "critical (pcs \<sigma> i)" by simp
    show ?thesis using AtCheck mutexInv_pc [OF I c]
      by (simp add: step_def split: prod.splits sum.splits bool.splits)
  next
    case AtCreate
    then have c: "critical (pcs \<sigma> i)" by simp
    show ?thesis using AtCreate mutexInv_pc [OF I c]
      by (simp add: step_def split: prod.splits sum.splits)
  next
    case AtDbUpdate
    then have c: "critical (pcs \<sigma> i)" by simp
    show ?thesis using AtDbUpdate mutexInv_pc [OF I c]
      by (simp add: step_def split: prod.splits sum.splits)
  next
    case (Releasing r)
    with I show ?thesis by (simp add: step_def mutexInv_release)
  next
    case AfterLock
    show ?thesis using AfterLock mutexInv_done [OF I AfterLock]
      by (simp add: step_def split: prod.splits)
  next
    case (Done r)
    with I show ?thesis by (simp add: step_def)
  qed
qed

lemma mutexInv_run: "mutexInv \<sigma> \<Longrightarrow> mutexInv (run E schedule \<sigma>)"
  by (induction schedule arbitrary: \<sigma>) (simp_all add: mutexInv_step)

lemma mutexInv_initial: "mutexInv (initial s)"
  by (simp add: mutexInv_def initial_def)


subsection \<open>A session whose last-known sandbox is running\<close>

lemma knownInv_update:
  assumes I: "knownInv cid \<sigma>"
    and id: "containerId (fst s') = Some cid"
    and cr: "creations (snd s') = []"
    and c': "c' \<noteq> AtCreate" "c' \<noteq> AtDbUpdate"
    and h: "c' = AtCheck \<or> (\<exists>j. pcs \<sigma> j = AtCheck) \<Longrightarrow>
              \<exists>h. container (fst s') = Some h \<and> sandboxId h = cid"
  shows "knownInv cid (\<sigma>\<lparr>shared := s', pcs := (pcs \<sigma>)(i := c')\<rparr>)"
  using assms unfolding knownInv_def by auto

lemma knownInv_request: "knownInv cid \<sigma> \<Longrightarrow> knownInv cid (request i \<sigma>)"
  unfolding knownInv_def request_def by (auto split: option.splits)

lemma knownInv_release: "knownInv cid \<sigma> \<Longrightarrow> knownInv cid (release i r \<sigma>)"
  unfolding knownInv_def release_def Let_def by (auto split: list.splits sum.splits)

lemma knownInv_step:
  assumes R: "reliable E" and ne: "cid \<noteq> []" and rt: "runningThroughout E cid"
    and I: "knownInv cid \<sigma>"
  shows "knownInv cid (step E i \<sigma>)"
proof -
  obtain p tr where sh: "shared \<sigma> = (p, tr)" by (cases "shared \<sigma>") auto
  from I sh have id: "containerId p = Some cid" and cr: "creations tr = []"
    and nc: "pcs \<sigma> i \<noteq> AtCreate" "pcs \<sigma> i \<noteq> AtDbUpdate"
    and chk: "\<And>j. pcs \<sigma> j = AtCheck \<Longrightarrow> \<exists>h. container p = Some h \<and> sandboxId h = cid"
    unfolding knownInv_def by auto
  from R have conn: "\<And>tr h. connect E tr cid (CONTAINER_TIMEOUT E) = Inr h \<Longrightarrow> sandboxId h = cid"
    unfolding reliable_def by blast
  show ?thesis
  proof (cases "pcs \<sigma> i")
    case Start
    with I show ?thesis by (simp add: step_def knownInv_request)
  next
    case Queued
    with I show ?thesis by (simp add: step_def)
  next
    case AtConnect
    show ?thesis
    proof (cases "connect E tr cid (CONTAINER_TIMEOUT E)")
      case (Inl e)
      with id ne have c: "connectStep E (p, tr) =
          (Inl e, p, tr @ [Connect cid (CONTAINER_TIMEOUT E)])"
        by (simp add: connectStep_def)
      have "knownInv cid (\<sigma>\<lparr>shared := (p, tr @ [Connect cid (CONTAINER_TIMEOUT E)]),
          pcs := (pcs \<sigma>)(i := Releasing (Inl e))\<rparr>)"
        using I id cr chk by (intro knownInv_update) auto
      with AtConnect sh c show ?thesis by (simp add: step_def)
    next
      case (Inr h)
      with id ne have c: "connectStep E (p, tr) =
          (Inr (), p\<lparr>container := Some h\<rparr>, tr @ [Connect cid (CONTAINER_TIMEOUT E)])"
        by (simp add: connectStep_def)
      from conn [OF Inr] have hid: "sandboxId h = cid" .
      have "knownInv cid (\<sigma>\<lparr>shared := (p\<lparr>container := Some h\<rparr>,
            tr @ [Connect cid (CONTAINER_TIMEOUT E)]),
          pcs := (pcs \<sigma>)(i := AtCheck)\<rparr>)"
        using I id cr hid by (intro knownInv_update) auto
      with AtConnect sh c show ?thesis by (simp add: step_def)
    qed
  next
    case AtCheck
    from chk [OF AtCheck] obtain h where h: "container p = Some h" "sandboxId h = cid" by blast
    from rt h have "isRunning E tr h = Inr True" unfolding runningThroughout_def by blast
    with h have n: "needsCreate E (p, tr) = (Inr False, p, tr @ [IsRunning h])"
      by (simp add: needsCreate_def)
    have "knownInv cid (\<sigma>\<lparr>shared := (p, tr @ [IsRunning h]),
          pcs := (pcs \<sigma>)(i := Releasing (Inr ()))\<rparr>)"
      using I id cr h by (intro knownInv_update) auto
    with AtCheck sh n show ?thesis by (simp add: step_def)
  next
    case AtCreate
    with nc show ?thesis by simp
  next
    case AtDbUpdate
    with nc show ?thesis by simp
  next
    case (Releasing r)
    with I show ?thesis by (simp add: step_def knownInv_release)
  next
    case AfterLock
    obtain r p' tr' where a: "afterLock (p, tr) = (r, p', tr')"
      by (cases "afterLock (p, tr)") auto
    then have f: "tr' = tr" "containerId p' = containerId p" "container p' = container p"
      by (auto simp: afterLock_def Let_def split: option.splits if_splits)
    have "knownInv cid (\<sigma>\<lparr>shared := (p', tr'), pcs := (pcs \<sigma>)(i := Done r)\<rparr>)"
      using I id cr f chk by (intro knownInv_update) auto
    with AfterLock sh a show ?thesis by (simp add: step_def)
  next
    case (Done r)
    with I show ?thesis by (simp add: step_def)
  qed
qed

lemma knownInv_run:
  "reliable E \<Longrightarrow> cid \<noteq> [] \<Longrightarrow> runningThroughout E cid \<Longrightarrow> knownInv cid \<sigma>
     \<Longrightarrow> knownInv cid (run E schedule \<sigma>)"
  by (induction schedule arbitrary: \<sigma>) (simp_all add: knownInv_step)

lemma knownInv_initial: "containerId p = Some cid \<Longrightarrow> knownInv cid (initial (p, []))"
  by (simp add: knownInv_def initial_def)

subsection \<open>A single call is \<open>initialize\<close>\<close>

text \<open>
  Run alone, a task goes through the steps of the function \<open>initialize\<close> of the previous
  sections: after eight steps it has finished with that function's result and session.
\<close>

lemma step_Done: "pcs \<sigma> i = Done r \<Longrightarrow> step E i \<sigma> = \<sigma>"
  by (simp add: step_def)

lemma run_Done: "pcs \<sigma> i = Done r \<Longrightarrow> run E (replicate n i) \<sigma> = \<sigma>"
  by (induction n) (simp_all add: step_Done)

lemma run_finished: "run E (replicate n 0) (finished s r) = finished s r"
  by (rule run_Done [where r = r]) (simp add: finished_def)

lemma release_alone:
  "run E (replicate (Suc (Suc n)) 0) (alone s (Releasing r)) =
     (case r of Inl e \<Rightarrow> finished s (Inl e)
      | Inr u \<Rightarrow> finished (snd (afterLock s)) (fst (afterLock s)))"
proof (cases r)
  case (Inl e)
  have "step E 0 (alone s (Releasing r)) = finished s (Inl e)"
    using Inl by (simp add: step_def release_def alone_def finished_def)
  then have "run E (replicate (Suc (Suc n)) 0) (alone s (Releasing r))
      = run E (replicate (Suc n) 0) (finished s (Inl e))"
    using Inl by simp
  then show ?thesis using Inl by (simp only: run_finished sum.case)
next
  case (Inr u)
  have 1: "step E 0 (alone s (Releasing r)) =
      \<lparr>shared = s, holder = None, waiting = [], pcs = (\<lambda>i. Start)(0 := AfterLock)\<rparr>"
    using Inr by (simp add: step_def release_def alone_def)
  have 2: "step E 0 \<lparr>shared = s, holder = None, waiting = [], pcs = (\<lambda>i. Start)(0 := AfterLock)\<rparr>
      = finished (snd (afterLock s)) (fst (afterLock s))"
    by (simp add: step_def finished_def split: prod.splits)
  have "run E (replicate (Suc (Suc n)) 0) (alone s (Releasing r))
      = run E (replicate n 0) (finished (snd (afterLock s)) (fst (afterLock s)))"
    using 1 2 by simp
  then show ?thesis using Inr by (simp only: run_finished sum.case)
qed

lemma run_alone:
  "run E (replicate 8 0) (initial s) = finished (snd (initialize E s)) (fst (initialize E s))"
proof -
  have 0: "step E 0 (initial s) = alone s AtConnect"
    by (simp add: step_def request_def initial_def alone_def)
  obtain r1 s1 where c: "connectStep E s = (r1, s1)" by (cases "connectStep E s") auto
  obtain r2 s2 where n: "needsCreate E s1 = (r2, s2)" by (cases "needsCreate E s1") auto
  obtain r3 s3 where k: "createCall E s2 = (r3, s3)" by (cases "createCall E s2") auto
  obtain r4 s4 where w: "persistId E s3 = (r4, s4)" by (cases "persistId E s3") auto
  show ?thesis
  proof (cases r1)
    case (Inl e)
    with c have 1: "step E 0 (alone s AtConnect) = alone s1 (Releasing (Inl e))"
      by (simp add: step_def alone_def)
    have i: "initialize E s = (Inl e, s1)"
      using c Inl by (simp add: initialize_def acquireLock_def criticalSection_def)
    have "run E (replicate 8 0) (initial s) = run E (replicate 6 0) (alone s1 (Releasing (Inl e)))"
      using 0 1 by (simp add: numeral_eq_Suc)
    also have "\<dots> = finished s1 (Inl e)"
      using release_alone [of E 4 s1 "Inl e"] by (simp add: numeral_eq_Suc)
    finally show ?thesis using i by simp
  next
    case (Inr u)
    with c have 1: "step E 0 (alone s AtConnect) = alone s1 AtCheck"
      by (simp add: step_def alone_def)
    show ?thesis
    proof (cases r2)
      case (Inl e)
      with n have 2: "step E 0 (alone s1 AtCheck) = alone s2 (Releasing (Inl e))"
        by (simp add: step_def alone_def)
      have i: "initialize E s = (Inl e, s2)"
        using c n Inr Inl by (simp add: initialize_def acquireLock_def criticalSection_def)
      have "run E (replicate 8 0) (initial s)
              = run E (replicate 5 0) (alone s2 (Releasing (Inl e)))"
        using 0 1 2 by (simp add: numeral_eq_Suc)
      also have "\<dots> = finished s2 (Inl e)"
        using release_alone [of E 3 s2 "Inl e"] by (simp add: numeral_eq_Suc)
      finally show ?thesis using i by simp
    next
      case b: (Inr b)
      show ?thesis
      proof (cases b)
        case False
        with n b have 2: "step E 0 (alone s1 AtCheck) = alone s2 (Releasing (Inr ()))"
          by (simp add: step_def alone_def)
        have i: "initialize E s = afterLock s2"
          using c n Inr b False
          by (simp add: initialize_def acquireLock_def criticalSection_def)
        have "run E (replicate 8 0) (initial s)
                = run E (replicate 5 0) (alone s2 (Releasing (Inr ())))"
          using 0 1 2 by (simp add: numeral_eq_Suc)
        also have "\<dots> = finished (snd (afterLock s2)) (fst (afterLock s2))"
          using release_alone [of E 3 s2 "Inr ()"] by (simp add: numeral_eq_Suc)
        finally show ?thesis using i by simp
      next
        case True
        with n b have 2: "step E 0 (alone s1 AtCheck) = alone s2 AtCreate"
          by (simp add: step_def alone_def)
        show ?thesis
        proof (cases r3)
          case (Inl e)
          with k have 3: "step E 0 (alone s2 AtCreate) = alone s3 (Releasing (Inl e))"
            by (simp add: step_def alone_def)
          have i: "initialize E s = (Inl e, s3)"
            using c n k Inr b True Inl
            by (simp add: initialize_def acquireLock_def criticalSection_def createStep_def)
          have "run E (replicate 8 0) (initial s)
                  = run E (replicate 4 0) (alone s3 (Releasing (Inl e)))"
            using 0 1 2 3 by (simp add: numeral_eq_Suc)
          also have "\<dots> = finished s3 (Inl e)"
            using release_alone [of E 2 s3 "Inl e"] by (simp add: numeral_eq_Suc)
          finally show ?thesis using i by simp
        next
          case u3: (Inr u3)
          with k have 3: "step E 0 (alone s2 AtCreate) = alone s3 AtDbUpdate"
            by (simp add: step_def alone_def)
          from w have 4: "step E 0 (alone s3 AtDbUpdate) = alone s4 (Releasing r4)"
            by (simp add: step_def alone_def)
          have i: "initialize E s =
              (case r4 of Inl e \<Rightarrow> (Inl e, s4) | Inr u \<Rightarrow> afterLock s4)"
            using c n k w Inr b True u3
            by (simp add: initialize_def acquireLock_def criticalSection_def createStep_def
                split: sum.splits)
          have "run E (replicate 8 0) (initial s)
                  = run E (replicate 3 0) (alone s4 (Releasing r4))"
            using 0 1 2 3 4 by (simp add: numeral_eq_Suc)
          also have "\<dots> = (case r4 of Inl e \<Rightarrow> finished s4 (Inl e)
              | Inr u \<Rightarrow> finished (snd (afterLock s4)) (fst (afterLock s4)))"
            using release_alone [of E 1 s4 r4] by (simp add: numeral_eq_Suc)
          finally show ?thesis using i by (simp split: sum.splits)
        qed
      qed
    qed
  qed
qed

subsection \<open>Two sample runs\<close>

lemma reliable_reliableEnv: "reliable reliableEnv"
  by (simp add: reliable_def reliableEnv_def)

lemmas step_defs = step_def request_def release_def initial_def connectStep_def needsCreate_def
  createCall_def persistId_def afterLock_def template_def templateTypes_def Let_def

lemma run_ready:
  "run reliableEnv scheduleReady (initial (knownProject, [])) =
     \<lparr>shared = (initializedProject,
        [Connect ''sbx-new'' 60000, IsRunning (Container ''sbx-new''),
         Connect ''sbx-new'' 60000, IsRunning (Container ''sbx-new'')]),
      holder = None, waiting = [],
      pcs = (\<lambda>i. Start)(0 := Done (Inr ()), 1 := Done (Inr ()))\<rparr>"
  by (simp add: scheduleReady_def step_defs sample_defs knownProject_def)

lemma run_fresh:
  "run reliableEnv schedule2 (initial (freshProject, [])) =
     \<lparr>shared = (initializedProject,
        [Create ''gitwit-reactjs'' 60000, DbUpdate ''p1'' (Some ''sbx-new''),
         Connect ''sbx-new'' 60000, IsRunning (Container ''sbx-new'')]),
      holder = None, waiting = [],
      pcs = (\<lambda>i. Start)(0 := Done (Inr ()), 1 := Done (Inr ()))\<rparr>"
  by (simp add: schedule2_def step_defs sample_defs freshProject_def)

text \<open>
  Reliability of the service is needed: when the service reports the sandbox it has just
  created as stopped, the second call creates another one, serialised as it is.
\<close>

lemma unreliable_service_two_creations:
  "creations (snd (shared (run neverRunning schedule2 (initial (freshProject, [])))))
     = [''gitwit-reactjs'', ''gitwit-reactjs'']"
  by (simp add: schedule2_def step_defs sample_defs freshProject_def)

subsection \<open>The number of creations\<close>

text \<open>
  Claim C1, as amended. Let any number of \<open>initialize\<close> calls run on one session under any
  schedule. At every moment at most one task is inside the critical section, whatever the
  sandbox service does. Against a reliable sandbox service, moreover: at every moment at
  most one creation has been called; if the session started without a handle and without
  a truthy last-known id, then as soon as one call has returned without error exactly one
  creation has been called, with the template of the project type; and if the session
  started with a truthy last-known id whose sandbox is reported running throughout, no
  creation is called at all.
\<close>

theorem concurrent_initialize:
  "(\<forall>i j. critical (pcs (run E schedule (initial (p, []))) i)
           \<and> critical (pcs (run E schedule (initial (p, []))) j) \<longrightarrow> i = j)
   \<and> (reliable E \<longrightarrow>
        length (creations (snd (shared (run E schedule (initial (p, [])))))) \<le> 1
        \<and> (container p = None \<and> \<not> truthyString (containerId p)
            \<and> pcs (run E schedule (initial (p, []))) k = Done (Inr ()) \<longrightarrow>
            creations (snd (shared (run E schedule (initial (p, []))))) = [template (type p)])
        \<and> (containerId p = Some cid \<and> cid \<noteq> [] \<and> runningThroughout E cid \<longrightarrow>
            creations (snd (shared (run E schedule (initial (p, []))))) = []))"
proof -
  define \<sigma> where "\<sigma> = run E schedule (initial (p, []))"
  have M: "mutexInv \<sigma>" unfolding \<sigma>_def using mutexInv_run [OF mutexInv_initial] .
  have mutex: "i = j" if "critical (pcs \<sigma> i)" "critical (pcs \<sigma> j)" for i j
  proof -
    from M that have "holder \<sigma> = Some i" "holder \<sigma> = Some j"
      unfolding mutexInv_def by simp_all
    then show ?thesis by simp
  qed
  have c1: "\<forall>i j. critical (pcs \<sigma> i) \<and> critical (pcs \<sigma> j) \<longrightarrow> i = j"
    using mutex by blast
  have c2: "reliable E \<longrightarrow>
        length (creations (snd (shared \<sigma>))) \<le> 1
        \<and> (container p = None \<and> \<not> truthyString (containerId p)
            \<and> pcs \<sigma> k = Done (Inr ()) \<longrightarrow>
            creations (snd (shared \<sigma>)) = [template (type p)])
        \<and> (containerId p = Some cid \<and> cid \<noteq> [] \<and> runningThroughout E cid \<longrightarrow>
            creations (snd (shared \<sigma>)) = [])"
  proof
    assume R: "reliable E"
    have I: "lockInv E \<sigma>" unfolding \<sigma>_def using lockInv_run [OF R lockInv_initial] .
    have one: "length (creations (snd (shared \<sigma>))) \<le> 1"
      using lockInvD(5) [OF I] by (rule created_at_most_one)
    have exact: "creations (snd (shared \<sigma>)) = [template (type p)]"
      if "container p = None" "\<not> truthyString (containerId p)" "pcs \<sigma> k = Done (Inr ())"
    proof -
      have J: "progressInv (type p) \<sigma>"
        unfolding \<sigma>_def using that(1,2) by (intro progressInv_run progressInv_initial)
      from that(3) have "passed (pcs \<sigma> k)" by simp
      from passedD [OF J this] have "container (fst (shared \<sigma>)) \<noteq> None" .
      with J have ne: "creations (snd (shared \<sigma>)) \<noteq> []" unfolding progressInv_def by blast
      from J have sub: "set (creations (snd (shared \<sigma>))) \<subseteq> {template (type p)}"
        unfolding progressInv_def by blast
      from one ne sub show ?thesis by (rule creations_singleton)
    qed
    have none: "creations (snd (shared \<sigma>)) = []"
      if "containerId p = Some cid" "cid \<noteq> []" "runningThroughout E cid"
    proof -
      have "knownInv cid \<sigma>"
        unfolding \<sigma>_def using R that(2,3) knownInv_initial [OF that(1)] by (rule knownInv_run)
      then show ?thesis unfolding knownInv_def by blast
    qed
    have e: "container p = None \<and> \<not> truthyString (containerId p)
            \<and> pcs \<sigma> k = Done (Inr ()) \<longrightarrow>
            creations (snd (shared \<sigma>)) = [template (type p)]"
      using exact by blast
    have n: "containerId p = Some cid \<and> cid \<noteq> [] \<and> runningThroughout E cid \<longrightarrow>
            creations (snd (shared \<sigma>)) = []"
      using none by blast
    show "length (creations (snd (shared \<sigma>))) \<le> 1
        \<and> (container p = None \<and> \<not> truthyString (containerId p)
            \<and> pcs \<sigma> k = Done (Inr ()) \<longrightarrow>
            creations (snd (shared \<sigma>)) = [template (type p)])
        \<and> (containerId p = Some cid \<and> cid \<noteq> [] \<and> runningThroughout E cid \<longrightarrow>
            creations (snd (shared \<sigma>)) = [])"
      using conjI [OF one conjI [OF e n]] .
  qed
  show ?thesis using conjI [OF c1 c2] unfolding \<sigma>_def .
qed

theorem concurrent_initialize_witness:
  "reliable reliableEnv
   \<and> container freshProject = None \<and> \<not> truthyString (containerId freshProject)
   \<and> pcs (run reliableEnv schedule2 (initial (freshProject, []))) 1 = Done (Inr ())
   \<and> creations (snd (shared (run reliableEnv schedule2 (initial (freshProject, [])))))
       = [''gitwit-reactjs'']
   \<and> critical (pcs (run reliableEnv [0, 1, 0] (initial (freshProject, []))) 0)
   \<and> \<not> critical (pcs (run reliableEnv [0, 1, 0] (initial (freshProject, []))) 1)
   \<and> containerId knownProject = Some ''sbx-new''
   \<and> runningThroughout reliableEnv ''sbx-new''
   \<and> creations (snd (shared (run reliableEnv scheduleReady (initial (knownProject, []))))) = []"
proof -
  have f: "container freshProject = None" "\<not> truthyString (containerId freshProject)"
    by (simp_all add: freshProject_def newProject_def truthyString_def)
  have d: "pcs (run reliableEnv schedule2 (initial (freshProject, []))) 1 = Done (Inr ())"
    by (simp add: run_fresh)
  have t: "template (type freshProject) = ''gitwit-reactjs''"
    by (simp add: freshProject_def newProject_def template_def templateTypes_def)
  have "creations (snd (shared (run reliableEnv schedule2 (initial (freshProject, [])))))
       = [template (type freshProject)]"
    using concurrent_initialize [of reliableEnv schedule2 freshProject 1 "''sbx-new''"]
      reliable_reliableEnv f d
    by blast
  with t have c: "creations (snd (shared (run reliableEnv schedule2 (initial (freshProject, [])))))
       = [''gitwit-reactjs'']"
    by simp
  have m: "critical (pcs (run reliableEnv [0, 1, 0] (initial (freshProject, []))) 0)"
    by (simp add: step_defs sample_defs freshProject_def)
  have nm: "\<not> critical (pcs (run reliableEnv [0, 1, 0] (initial (freshProject, []))) 1)"
  proof
    assume "critical (pcs (run reliableEnv [0, 1, 0] (initial (freshProject, []))) 1)"
    with m concurrent_initialize [of reliableEnv "[0, 1, 0]" freshProject 0 "''sbx-new''"]
    have "(0::nat) = 1" by blast
    then show False by simp
  qed
  have k: "containerId knownProject = Some ''sbx-new''"
    by (simp add: knownProject_def newProject_def)
  have ne: "''sbx-new'' \<noteq> []" by simp
  have rt: "runningThroughout reliableEnv ''sbx-new''"
    by (simp add: runningThroughout_def reliableEnv_def)
  have z: "creations (snd (shared (run reliableEnv scheduleReady (initial (knownProject, [])))))
       = []"
    using concurrent_initialize [of reliableEnv scheduleReady knownProject 0 "''sbx-new''"]
      reliable_reliableEnv k ne rt
    by blast
  from reliable_reliableEnv f d c m nm k rt z show ?thesis by simp
qed

text \<open>
  The claim as written has exactly one creation whenever calls run concurrently. Here two
  calls run on a session whose last-known sandbox is running; both return without error,
  and no creation has been called.
\<close>

theorem running_sandbox_counterexample:
  "pcs (run reliableEnv scheduleReady (initial (knownProject, []))) 0 = Done (Inr ())
   \<and> pcs (run reliableEnv scheduleReady (initial (knownProject, []))) 1 = Done (Inr ())
   \<and> creations (snd (shared (run reliableEnv scheduleReady (initial (knownProject, []))))) = []"
  by (simp add: run_ready)

end
